theory Spec2Isabelle
  imports Main "HOL-Library.AList"
begin

section \<open>Python values and the component tree\<close>

text \<open>
  A resource declaration (an entry of a \<open>_js_dist\<close> or \<open>_css_dist\<close> list) is a Python
  dict from strings to strings; the association list keeps insertion order, and
  \<open>AList.update\<close> is the item assignment \<open>r[k] = v\<close>.
\<close>

type_synonym resource = "(string \<times> string) list"

text \<open>
  The dict objects of resource declarations live in a store and are held by reference:
  a declared list is a list of references, and two lists may hold the same dict object.
\<close>

type_synonym ref = nat

type_synonym store = "ref \<Rightarrow> resource"

text \<open>
  The Python values that occur as \<open>children\<close>, as elements of a \<open>children\<close> sequence and
  as property values. \<open>PyObject ty name\<close> is an object of another kind, of type name
  \<open>ty\<close>: a bound method, a class, the \<open>REQUIRED\<close> sentinel, a declared resource list;
  it is neither a component nor a list or tuple, and has no \<open>id\<close> attribute.

  A component carries its class, its \<open>id\<close> attribute (\<open>None\<close> when the
  attribute is unset; identifiers are strings), its \<open>children\<close> attribute (\<open>None\<close> when the
  instance has no such attribute, \<open>Some PyNone\<close> when it holds Python's \<open>None\<close>) and
  the other attributes stored by \<open>setattr\<close> in \<open>Component.__init__\<close>, in insertion order.

  A component class carries what the generated class fixes for all its instances: the
  assignments at the top of the generated \<open>__init__\<close> (\<open>_prop_names\<close>, \<open>_type\<close>,
  \<open>_namespace\<close>, \<open>_valid_wildcard_attributes\<close>, \<open>available_events\<close>), the resource
  lists that a component package attaches to the class, by attribute name, and
  \<open>cls_attributes\<close>, the other attributes that a lookup finds on the class and its bases
  (methods and class attributes of \<open>Component\<close>, of \<open>collections.MutableMapping\<close> and of
  \<open>object\<close>).
\<close>

datatype pyval =
    PyNone
  | UNDEFINED
  | PyStr string
  | PyNum int
  | PyNode component
  | PyList "pyval list"
  | PyTuple "pyval list"
  | PyObject string string
and component =
  Component (c_class: component_class) (c_id: "string option")
            (c_children: "pyval option") (c_attrs: "(string \<times> pyval) list")
and component_class =
  ComponentClass (cls_type: string) (cls_namespace: string) (cls_prop_names: "string list")
                 (cls_valid_wildcard_attributes: "string list")
                 (cls_available_events: "string list")
                 (cls_dists: "(string \<times> ref list) list")
                 (cls_attributes: "(string \<times> pyval) list")

text \<open>
  The class attributes of the example classes: the attributes that the class
  \<open>Component\<close> defines in the source (the two sentinels and their classes, its methods,
  the \<open>__repr__\<close> of the generated class) and the mixin methods that it inherits from
  \<open>collections.MutableMapping\<close>. A method reads as a bound-method object. The
  double-underscore attributes of \<open>object\<close> and of the abstract-base-class machinery
  are left out: no property of the examples has such a name.
\<close>

definition component_attributes :: "(string \<times> pyval) list" where
  "component_attributes =
     [(''UNDEFINED'', UNDEFINED),
      (''REQUIRED'', PyObject ''_REQUIRED'' ''required''),
      (''_UNDEFINED'', PyObject ''type'' ''_UNDEFINED''),
      (''_REQUIRED'', PyObject ''type'' ''_REQUIRED'')]
     @ map (\<lambda>m. (m, PyObject ''method'' m))
         [''__init__'', ''__repr__'', ''to_plotly_json'', ''_get_set_or_delete'',
          ''__getitem__'', ''__setitem__'', ''__delitem__'', ''traverse'',
          ''traverse_with_paths'', ''__iter__'', ''__len__'',
          ''get'', ''keys'', ''items'', ''values'', ''pop'', ''popitem'', ''clear'',
          ''update'', ''setdefault'', ''__contains__'', ''__eq__'', ''__ne__'']"

text \<open>Assignment to \<open>self.children\<close>.\<close>

definition set_children :: "component \<Rightarrow> pyval \<Rightarrow> component" where
  "set_children c v = Component (c_class c) (c_id c) (Some v) (c_attrs c)"

text \<open>\<open>isinstance(v, Component)\<close> and \<open>getattr(v, 'id', None)\<close> on an arbitrary value:
  only components have an \<open>id\<close> attribute.\<close>

fun is_Component :: "pyval \<Rightarrow> bool" where
  "is_Component (PyNode c) = True"
| "is_Component v = False"

fun getattr_id :: "pyval \<Rightarrow> string option" where
  "getattr_id (PyNode c) = c_id c"
| "getattr_id v = None"

section \<open>\<open>Component.__len__\<close>\<close>

fun len :: "component \<Rightarrow> nat"
and len_items :: "pyval list \<Rightarrow> nat" where
  "len (Component cls i children attrs) =
     (case children of
        None \<Rightarrow> 0
      | Some PyNone \<Rightarrow> 0
      | Some (PyNode ch) \<Rightarrow> 1 + len ch
      | Some (PyList xs) \<Rightarrow> len_items xs
      | Some (PyTuple xs) \<Rightarrow> len_items xs
      | Some v \<Rightarrow> 1)"
| "len_items [] = 0"
| "len_items (x # xs) =
     (case x of PyNode n \<Rightarrow> 1 + len n + len_items xs | v \<Rightarrow> 1 + len_items xs)"

section \<open>Traversal\<close>

text \<open>\<open>type(v).__name__\<close>; a generated class is named after its \<open>_type\<close>.\<close>

fun type_name :: "pyval \<Rightarrow> string" where
  "type_name PyNone = ''NoneType''"
| "type_name UNDEFINED = ''_UNDEFINED''"
| "type_name (PyStr s) = ''str''"
| "type_name (PyNum n) = ''int''"
| "type_name (PyNode c) = cls_type (c_class c)"
| "type_name (PyList xs) = ''list''"
| "type_name (PyTuple xs) = ''tuple''"
| "type_name (PyObject ty name) = ty"

text \<open>The format \<open>{:d}\<close> of a list index.\<close>

fun str_of_nat :: "nat \<Rightarrow> string" where
  "str_of_nat n =
     (if n < 10 then [char_of (48 + n)]
      else str_of_nat (n div 10) @ [char_of (48 + n mod 10)])"

declare str_of_nat.simps [simp del]

text \<open>\<open>"(id={:s})".format(v.id) if getattr(v, 'id', False) else ''\<close>: the empty
  identifier is falsy.\<close>

definition id_string :: "pyval \<Rightarrow> string" where
  "id_string v =
     (case getattr_id v of
        None \<Rightarrow> []
      | Some s \<Rightarrow> if s = [] then [] else ''(id='' @ s @ '')'')"

text \<open>\<open>"\n".join([a, p])\<close>\<close>

definition join_lines :: "string \<Rightarrow> string \<Rightarrow> string" where
  "join_lines a p = a @ [CHR 0x0A] @ p"

text \<open>
  \<open>Component.traverse_with_paths\<close>; the generator is the list of what it yields.
  \<open>enumerate_with_paths idx xs\<close> is the loop over \<open>enumerate(children)\<close> from index
  \<open>idx\<close> on. A missing \<open>children\<close> attribute reads as \<open>None\<close>
  (\<open>getattr(self, 'children', None)\<close>), and \<open>children_string\<close> is only used when
  \<open>children\<close> is a component.
\<close>

fun traverse_with_paths :: "component \<Rightarrow> (string \<times> pyval) list"
and enumerate_with_paths :: "nat \<Rightarrow> pyval list \<Rightarrow> (string \<times> pyval) list" where
  "traverse_with_paths (Component cls i children attrs) =
     (case children of
        Some (PyNode ch) \<Rightarrow>
          (let children_type = type_name (PyNode ch);
               children_id = id_string (PyNode ch);
               children_string = children_type @ '' '' @ children_id
           in (''[*] '' @ children_string, PyNode ch)
                # map (\<lambda>(p, t). (join_lines (''[*] '' @ children_string) p, t))
                      (traverse_with_paths ch))
      | Some (PyList xs) \<Rightarrow> enumerate_with_paths 0 xs
      | Some (PyTuple xs) \<Rightarrow> enumerate_with_paths 0 xs
      | v \<Rightarrow> [])"
| "enumerate_with_paths idx [] = []"
| "enumerate_with_paths idx (i # xs) =
     (let list_path = ''['' @ str_of_nat idx @ ''] '' @ type_name i @ '' '' @ id_string i
      in (list_path, i)
           # (case i of
                PyNode n \<Rightarrow> map (\<lambda>(p, t). (join_lines list_path p, t)) (traverse_with_paths n)
              | v \<Rightarrow> [])
           @ enumerate_with_paths (Suc idx) xs)"

definition traverse :: "component \<Rightarrow> pyval list" where
  "traverse c = map snd (traverse_with_paths c)"

text \<open>\<open>Component.__iter__\<close>\<close>

definition iter :: "component \<Rightarrow> string list" where
  "iter c =
     concat (map (\<lambda>t. if is_Component t \<and> getattr_id t \<noteq> None then [the (getattr_id t)] else [])
                 (traverse c))"

section \<open>Lookup, assignment and deletion by identifier\<close>

text \<open>
  \<open>KeyError None\<close> is the bare \<open>raise KeyError\<close> of the structure check,
  \<open>KeyError (Some k)\<close> is \<open>raise KeyError(id)\<close> at the end of the search. \<open>TypeError\<close> is
  what item assignment and item deletion raise on a tuple.
\<close>

datatype error = KeyError "string option" | TypeError

definition NotFound :: "string \<Rightarrow> error" where
  "NotFound k = KeyError (Some k)"

definition InvalidStructure :: error where
  "InvalidStructure = KeyError None"

fun is_KeyError :: "error \<Rightarrow> bool" where
  "is_KeyError (KeyError a) = True"
| "is_KeyError TypeError = False"

text \<open>The \<open>operation\<close> argument together with \<open>new_item\<close>.\<close>

datatype operation = Get | Set pyval | Delete

text \<open>\<open>isinstance(v, (tuple, collections.MutableSequence))\<close>: a string is not one.\<close>

fun is_sequence :: "pyval \<Rightarrow> bool" where
  "is_sequence (PyList xs) = True"
| "is_sequence (PyTuple xs) = True"
| "is_sequence v = False"

definition check_if_has_indexable_children :: "component \<Rightarrow> error + unit" where
  "check_if_has_indexable_children item =
     (case c_children item of
        None \<Rightarrow> Inl (KeyError None)
      | Some children \<Rightarrow>
          if \<not> is_Component children \<and> \<not> is_sequence children then Inl (KeyError None)
          else Inr ())"

text \<open>
  \<open>Component._get_set_or_delete\<close>. The method mutates \<open>self\<close> and either returns or
  raises; the model returns the component as the call leaves it, paired with the outcome
  (\<open>Inr PyNone\<close> for the plain \<open>return\<close> of set and delete). A callee's state is written
  back into its parent on every path, also when the callee raised.

  \<open>children_loop tup done todo\<close> is the \<open>for i, item in enumerate(self.children)\<close> loop at
  index \<open>i = length done\<close>: \<open>done\<close> holds the elements already passed, \<open>todo\<close> the ones
  from \<open>i\<close> on, \<open>tup\<close> says the sequence is a tuple. It returns the elements of the
  sequence as the loop leaves them, and \<open>None\<close> when the loop ends without returning.
\<close>

fun get_set_or_delete :: "component \<Rightarrow> string \<Rightarrow> operation \<Rightarrow> component \<times> (error + pyval)"
and children_loop ::
  "bool \<Rightarrow> pyval list \<Rightarrow> pyval list \<Rightarrow> string \<Rightarrow> operation \<Rightarrow> pyval list \<times> (error + pyval) option"
where
  "get_set_or_delete (Component cls i children attrs) k operation =
     (let self = Component cls i children attrs in
      case check_if_has_indexable_children self of
        Inl e \<Rightarrow> (self, Inl e)
      | Inr u \<Rightarrow>
         (case children of
            Some (PyNode ch) \<Rightarrow>
              if c_id ch \<noteq> None \<and> c_id ch = Some k then
                (case operation of
                   Get \<Rightarrow> (self, Inr (PyNode ch))
                 | Set new_item \<Rightarrow> (set_children self new_item, Inr PyNone)
                 | Delete \<Rightarrow> (set_children self PyNone, Inr PyNone))
              else
                (case get_set_or_delete ch k operation of
                   (ch', Inr v) \<Rightarrow> (set_children self (PyNode ch'), Inr v)
                 | (ch', Inl TypeError) \<Rightarrow> (set_children self (PyNode ch'), Inl TypeError)
                 | (ch', Inl (KeyError a)) \<Rightarrow>
                     (set_children self (PyNode ch'), Inl (KeyError (Some k))))
          | Some (PyList xs) \<Rightarrow>
              (case children_loop False [] xs k operation of
                 (xs', Some r) \<Rightarrow> (set_children self (PyList xs'), r)
               | (xs', None) \<Rightarrow> (set_children self (PyList xs'), Inl (KeyError (Some k))))
          | Some (PyTuple xs) \<Rightarrow>
              (case children_loop True [] xs k operation of
                 (xs', Some r) \<Rightarrow> (set_children self (PyTuple xs'), r)
               | (xs', None) \<Rightarrow> (set_children self (PyTuple xs'), Inl (KeyError (Some k))))
          | v \<Rightarrow> (self, Inl (KeyError (Some k)))))"
| "children_loop tup done [] k operation = (done, None)"
| "children_loop tup done (item # rest) k operation =
     (if getattr_id item = Some k then
        (case operation of
           Get \<Rightarrow> (done @ item # rest, Some (Inr item))
         | Set new_item \<Rightarrow>
             if tup then (done @ item # rest, Some (Inl TypeError))
             else ((done @ item # rest)[length done := new_item], Some (Inr PyNone))
         | Delete \<Rightarrow>
             if tup then (done @ item # rest, Some (Inl TypeError))
             else (take (length done) (done @ item # rest)
                     @ drop (Suc (length done)) (done @ item # rest), Some (Inr PyNone)))
      else
        (case item of
           PyNode n \<Rightarrow>
             (case get_set_or_delete n k operation of
                (n', Inr v) \<Rightarrow> (done @ PyNode n' # rest, Some (Inr v))
              | (n', Inl TypeError) \<Rightarrow> (done @ PyNode n' # rest, Some (Inl TypeError))
              | (n', Inl (KeyError a)) \<Rightarrow> children_loop tup (done @ [PyNode n']) rest k operation)
         | v \<Rightarrow> children_loop tup (done @ [item]) rest k operation))"

text \<open>\<open>__getitem__\<close>, \<open>__setitem__\<close>, \<open>__delitem__\<close>\<close>

definition getitem :: "component \<Rightarrow> string \<Rightarrow> component \<times> (error + pyval)" where
  "getitem self k = get_set_or_delete self k Get"

definition setitem :: "component \<Rightarrow> string \<Rightarrow> pyval \<Rightarrow> component \<times> (error + pyval)" where
  "setitem self k item = get_set_or_delete self k (Set item)"

definition delitem :: "component \<Rightarrow> string \<Rightarrow> component \<times> (error + pyval)" where
  "delitem self k = get_set_or_delete self k Delete"

section \<open>The scenario tree\<close>

text \<open>
  A generated class with a \<open>children\<close> property and the properties \<open>id\<close>, \<open>foo\<close>,
  \<open>bar\<close>; the wildcard prefixes are the two of the generator. The scenario is
  \<open>root.children = [A(id="a"), "text", B(id="b", children=[C(id="c")])]\<close>; a generated
  constructor called without \<open>children\<close> stores \<open>children=None\<close>.
\<close>

definition example_class :: "string \<Rightarrow> component_class" where
  "example_class name =
     ComponentClass name ''ns'' [''children'', ''id'', ''foo'', ''bar''] [''data-'', ''aria-''] [] []
       component_attributes"

definition node_A :: component where
  "node_A = Component (example_class ''A'') (Some ''a'') (Some PyNone) []"

definition node_C :: component where
  "node_C = Component (example_class ''C'') (Some ''c'') (Some PyNone) []"

definition node_B :: component where
  "node_B = Component (example_class ''B'') (Some ''b'') (Some (PyList [PyNode node_C])) []"

definition scenario_root :: component where
  "scenario_root =
     Component (example_class ''Root'') None
       (Some (PyList [PyNode node_A, PyStr ''text'', PyNode node_B])) []"

section \<open>Serialization\<close>

text \<open>
  \<open>self.__dict__\<close> of an instance of a generated class: the bookkeeping attributes that
  the generated \<open>__init__\<close> assigns first, then what \<open>Component.__init__\<close> stored by
  \<open>setattr\<close>.
\<close>

definition instance_dict :: "component \<Rightarrow> (string \<times> pyval) list" where
  "instance_dict c =
     (let cl = c_class c in
      [(''_prop_names'', PyList (map PyStr (cls_prop_names cl))),
       (''_type'', PyStr (cls_type cl)),
       (''_namespace'', PyStr (cls_namespace cl)),
       (''_valid_wildcard_attributes'', PyList (map PyStr (cls_valid_wildcard_attributes cl))),
       (''available_events'', PyList (map PyStr (cls_available_events cl))),
       (''available_properties'', PyList (map PyStr (cls_prop_names cl))),
       (''available_wildcard_properties'',
          PyList (map PyStr (cls_valid_wildcard_attributes cl)))]
      @ (case c_children c of None \<Rightarrow> [] | Some v \<Rightarrow> [(''children'', v)])
      @ (case c_id c of None \<Rightarrow> [] | Some s \<Rightarrow> [(''id'', PyStr s)])
      @ c_attrs c)"

text \<open>
  What a lookup finds on the class of the instance: \<open>cls_attributes\<close> and the declared
  resource lists, a list reading as the list object of that name.
\<close>

definition class_dict :: "component \<Rightarrow> (string \<times> pyval) list" where
  "class_dict c =
     cls_attributes (c_class c)
     @ map (\<lambda>(name, refs). (name, PyObject ''list'' name)) (cls_dists (c_class c))"

text \<open>
  \<open>hasattr(self, p)\<close> and \<open>getattr(self, p)\<close>: the instance dict first, then the class.
  (The class serves a name before the instance dict only for a data descriptor, which
  here are \<open>__class__\<close>, \<open>__dict__\<close> and \<open>__weakref__\<close>, and \<open>setattr\<close> never puts
  such a name into the instance dict.) \<open>getattr\<close> is used only where \<open>hasattr\<close> holds.
\<close>

definition hasattr :: "component \<Rightarrow> string \<Rightarrow> bool" where
  "hasattr c p = (p \<in> fst ` set (instance_dict c) \<or> p \<in> fst ` set (class_dict c))"

definition getattr :: "component \<Rightarrow> string \<Rightarrow> pyval" where
  "getattr c p =
     (case map_of (instance_dict c) p of
        Some v \<Rightarrow> v
      | None \<Rightarrow> the (map_of (class_dict c) p))"

text \<open>\<open>k.startswith(w)\<close>\<close>

definition startswith :: "string \<Rightarrow> string \<Rightarrow> bool" where
  "startswith k w = (take (length w) k = w)"

text \<open>A dict built from key-value pairs in order, and \<open>d.update(e)\<close>.\<close>

definition dict_update :: "(string \<times> 'v) list \<Rightarrow> (string \<times> 'v) list \<Rightarrow> (string \<times> 'v) list" where
  "dict_update d e = foldl (\<lambda>d (k, v). AList.update k v d) d e"

definition dict_of :: "(string \<times> 'v) list \<Rightarrow> (string \<times> 'v) list" where
  "dict_of ps = dict_update [] ps"

record plotly_json =
  json_props :: "(string \<times> pyval) list"
  json_type :: string
  json_namespace :: string

text \<open>\<open>Component.to_plotly_json\<close>\<close>

definition to_plotly_json :: "component \<Rightarrow> plotly_json" where
  "to_plotly_json self =
     (let props = dict_of (map (\<lambda>p. (p, getattr self p))
                            (filter (\<lambda>p. hasattr self p) (cls_prop_names (c_class self))));
          props = dict_update props
                    (dict_of (map (\<lambda>k. (k, getattr self k))
                       (filter (\<lambda>k. list_ex (\<lambda>w. startswith k w)
                                          (cls_valid_wildcard_attributes (c_class self)))
                               (map fst (instance_dict self)))))
      in \<lparr>json_props = props,
          json_type = cls_type (c_class self),
          json_namespace = cls_namespace (c_class self)\<rparr>)"

section \<open>Resources inferred from the layout\<close>

text \<open>
  \<open>extract_resource_from_component\<close>, the closure inside
  \<open>Resources.get_inferred_resources\<close>, with the two lists it appends to and the store of
  dict objects as explicit state. The resource lists are class attributes, looked up by
  \<open>self.resource_name\<close>. \<open>copy\<close> makes a new list of the same dict objects, so
  \<open>r['namespace'] = component._namespace\<close> writes into the declared dicts themselves, and
  \<open>resources\<close> collects references to them.
\<close>

definition extract_resource_from_component ::
  "string \<Rightarrow> pyval \<Rightarrow> string list \<times> ref list \<times> store \<Rightarrow> string list \<times> ref list \<times> store" where
  "extract_resource_from_component resource_name component st =
     (case st of (namespaces, resources, heap) \<Rightarrow>
        (case component of
           PyNode c \<Rightarrow>
             if cls_namespace (c_class c) \<notin> set namespaces then
               (let namespaces = namespaces @ [cls_namespace (c_class c)] in
                case map_of (cls_dists (c_class c)) resource_name of
                  Some declared \<Rightarrow>
                    (let component_resources = declared;
                         heap = foldl (\<lambda>h r. h(r := AList.update ''namespace''
                                                     (cls_namespace (c_class c)) (h r)))
                                      heap component_resources
                     in (namespaces, resources @ component_resources, heap))
                | None \<Rightarrow> (namespaces, resources, heap))
             else (namespaces, resources, heap)
         | v \<Rightarrow> (namespaces, resources, heap)))"

text \<open>
  \<open>get_inferred_resources\<close> returns the list \<open>resources\<close>, a list of references; the
  model pairs it with the store as the call leaves it. \<open>returned_dicts\<close> is what the
  caller reads in the returned list.
\<close>

definition get_inferred_resources :: "string \<Rightarrow> component \<Rightarrow> store \<Rightarrow> ref list \<times> store" where
  "get_inferred_resources resource_name layout heap =
     snd (foldl (\<lambda>st t. extract_resource_from_component resource_name t st)
                (extract_resource_from_component resource_name (PyNode layout) ([], [], heap))
                (traverse layout))"

definition returned_dicts :: "ref list \<times> store \<Rightarrow> resource list" where
  "returned_dicts r = map (snd r) (fst r)"

section \<open>The component registry\<close>

text \<open>
  The class-level state of \<open>ComponentRegistry\<close>: the set \<open>registry\<close> of module names, as
  the list of its elements in iteration order, and the dict \<open>__dist_cache\<close>.
  \<open>sys.modules\<close> maps a module name to the module's attributes that hold resource lists.
\<close>

record registry_state =
  registry :: "string list"
  dist_cache :: "(string \<times> resource list) list"

type_synonym sys_modules = "(string \<times> (string \<times> resource list) list) list"

text \<open>
  The loop of \<open>get_resources\<close>. \<open>resources\<close> is the list object that was stored in the
  cache before the loop, so the cache entry grows with it; the loop returns the list as
  the loop leaves it and, if \<open>sys.modules[module_name]\<close> raised, the error.
\<close>

fun extend_resources ::
  "sys_modules \<Rightarrow> string \<Rightarrow> string list \<Rightarrow> resource list \<Rightarrow> resource list \<times> error option" where
  "extend_resources modules resource_name [] resources = (resources, None)"
| "extend_resources modules resource_name (module_name # rest) resources =
     (case map_of modules module_name of
        None \<Rightarrow> (resources, Some (KeyError (Some module_name)))
      | Some module \<Rightarrow>
          extend_resources modules resource_name rest
            (resources @ (case map_of module resource_name of None \<Rightarrow> [] | Some rs \<Rightarrow> rs)))"

definition get_resources ::
  "sys_modules \<Rightarrow> registry_state \<Rightarrow> string \<Rightarrow> registry_state \<times> (error + resource list)" where
  "get_resources modules cls resource_name =
     (let cached = map_of (dist_cache cls) resource_name in
      if cached \<noteq> None \<and> cached \<noteq> Some [] then (cls, Inr (the cached))
      else
        (case extend_resources modules resource_name (registry cls) [] of
           (resources, None) \<Rightarrow>
             (cls\<lparr>dist_cache := AList.update resource_name resources (dist_cache cls)\<rparr>,
              Inr resources)
         | (resources, Some e) \<Rightarrow>
             (cls\<lparr>dist_cache := AList.update resource_name resources (dist_cache cls)\<rparr>,
              Inl e)))"

text \<open>
  \<open>ComponentMeta.__new__\<close>, as far as the registry goes: \<open>module\<close> is the value of
  \<open>attributes['__module__']\<close>, and \<open>split('.')[0]\<close> is its part before the first dot.
\<close>

definition component_meta_new :: "string \<Rightarrow> string \<Rightarrow> registry_state \<Rightarrow> registry_state" where
  "component_meta_new name module cls =
     (let module = takeWhile (\<lambda>ch. ch \<noteq> CHR ''.'') module in
      if name = ''Component'' \<or> module = ''builtins'' then cls
      else if module \<in> set (registry cls) then cls
      else cls\<lparr>registry := registry cls @ [module]\<rparr>)"

section \<open>Reference notions for the properties\<close>

text \<open>
  Every value reachable through \<open>children\<close>, depth first, parents before their
  subtrees, left to right, without the root.
\<close>

fun descendants :: "component \<Rightarrow> pyval list"
and descendants_seq :: "pyval list \<Rightarrow> pyval list" where
  "descendants (Component cls i children attrs) =
     (case children of
        Some (PyNode ch) \<Rightarrow> PyNode ch # descendants ch
      | Some (PyList xs) \<Rightarrow> descendants_seq xs
      | Some (PyTuple xs) \<Rightarrow> descendants_seq xs
      | v \<Rightarrow> [])"
| "descendants_seq [] = []"
| "descendants_seq (x # xs) =
     x # (case x of PyNode n \<Rightarrow> descendants n | v \<Rightarrow> []) @ descendants_seq xs"

text \<open>The nodes among some values that carry the identifier \<open>k\<close>.\<close>

definition with_id :: "string \<Rightarrow> pyval list \<Rightarrow> pyval list" where
  "with_id k vs = filter (\<lambda>v. getattr_id v = Some k) vs"

text \<open>The namespace of a value that is a component.\<close>

fun namespace_of :: "pyval \<Rightarrow> string option" where
  "namespace_of (PyNode c) = Some (cls_namespace (c_class c))"
| "namespace_of v = None"

text \<open>The resource lists a value declares under a name: those of its class if it is a
  component, none otherwise.\<close>

fun declared_refs :: "string \<Rightarrow> pyval \<Rightarrow> ref list" where
  "declared_refs resource_name (PyNode c) =
     (case map_of (cls_dists (c_class c)) resource_name of None \<Rightarrow> [] | Some declared \<Rightarrow> declared)"
| "declared_refs resource_name v = []"

text \<open>What a component contributes when it is the one picked for its namespace: the dicts
  of its declared list as they are in the store \<open>heap\<close>, each tagged with the namespace.\<close>

definition tagged_resources :: "string \<Rightarrow> store \<Rightarrow> pyval \<Rightarrow> resource list" where
  "tagged_resources resource_name heap t =
     (case namespace_of t of
        None \<Rightarrow> []
      | Some ns \<Rightarrow> map (\<lambda>r. AList.update ''namespace'' ns (heap r)) (declared_refs resource_name t))"

text \<open>No dict object is declared under two namespaces: values of different namespaces
  among \<open>ts\<close> declare disjoint lists under the name.\<close>

definition no_shared_dicts :: "string \<Rightarrow> pyval list \<Rightarrow> bool" where
  "no_shared_dicts resource_name ts =
     list_all (\<lambda>t1. list_all (\<lambda>t2.
         namespace_of t1 = namespace_of t2
         \<or> list_all (\<lambda>r. r \<notin> set (declared_refs resource_name t2))
                     (declared_refs resource_name t1)) ts) ts"

text \<open>
  The collection as the specification describes it, on values instead of shared objects:
  a value of a namespace not seen so far contributes its declared dicts, read from the
  store \<open>heap\<close> and tagged with the namespace; every other value contributes nothing.
\<close>

definition collect_tagged ::
  "string \<Rightarrow> store \<Rightarrow> pyval \<Rightarrow> string list \<times> resource list \<Rightarrow> string list \<times> resource list" where
  "collect_tagged resource_name heap t st =
     (case st of (namespaces, collected) \<Rightarrow>
        (case namespace_of t of
           None \<Rightarrow> (namespaces, collected)
         | Some ns \<Rightarrow>
             if ns \<in> set namespaces then (namespaces, collected)
             else (namespaces @ [ns], collected @ tagged_resources resource_name heap t)))"

text \<open>What a lookup raises when nothing below the component carries the identifier: the
  error of the structure check if that fails, \<open>KeyError(id)\<close> otherwise.\<close>

definition lookup_error :: "component \<Rightarrow> string \<Rightarrow> error" where
  "lookup_error c k =
     (case check_if_has_indexable_children c of Inl e \<Rightarrow> e | Inr u \<Rightarrow> KeyError (Some k))"

text \<open>\<open>children\<close> is absent (no attribute, or \<open>None\<close>) or a scalar (a string or a
  number).\<close>

fun absent_or_scalar :: "pyval option \<Rightarrow> bool" where
  "absent_or_scalar None = True"
| "absent_or_scalar (Some PyNone) = True"
| "absent_or_scalar (Some (PyStr s)) = True"
| "absent_or_scalar (Some (PyNum i)) = True"
| "absent_or_scalar (Some v) = False"

section \<open>Further example trees\<close>

text \<open>A root whose list holds two nodes with the same identifier.\<close>

definition node_A2 :: component where
  "node_A2 = Component (example_class ''B'') (Some ''a'') (Some PyNone) []"

definition dup_root :: component where
  "dup_root =
     Component (example_class ''Root'') None (Some (PyList [PyNode node_A, PyNode node_A2])) []"

text \<open>A root whose \<open>children\<close> is the single node A, and a node whose \<open>children\<close> is a
  string.\<close>

definition single_root :: component where
  "single_root = Component (example_class ''Root'') None (Some (PyNode node_A)) []"

definition text_node :: component where
  "text_node = Component (example_class ''P'') (Some ''p'') (Some (PyStr ''text'')) []"

definition text_root :: component where
  "text_root =
     Component (example_class ''Root'') None (Some (PyList [PyNode text_node, PyNode node_C])) []"

text \<open>
  Instances of a generated class A with the properties \<open>id\<close>, \<open>foo\<close>, \<open>bar\<close> and no
  \<open>children\<close> property: one that stores \<open>foo\<close> with the value \<open>Component.UNDEFINED\<close>,
  one that has no \<open>foo\<close> attribute, and one with a wildcard attribute. An instance of a
  class that declares a property \<open>values\<close> and has not stored it.
\<close>

definition class_A :: component_class where
  "class_A =
     ComponentClass ''A'' ''ns'' [''id'', ''foo'', ''bar''] [''data-'', ''aria-''] [] []
       component_attributes"

definition A_foo_undefined :: component where
  "A_foo_undefined =
     Component class_A (Some ''a'') None [(''foo'', UNDEFINED), (''bar'', PyNum 1)]"

definition A_foo_unset :: component where
  "A_foo_unset = Component class_A (Some ''a'') None [(''bar'', PyNum 1)]"

definition A_with_wildcard :: component where
  "A_with_wildcard =
     Component class_A (Some ''a'') None [(''bar'', PyNum 1), (''data-x'', PyStr ''y'')]"

definition class_Checklist :: component_class where
  "class_Checklist =
     ComponentClass ''Checklist'' ''ns'' [''id'', ''values''] [''data-'', ''aria-''] [] []
       component_attributes"

definition checklist_values_unset :: component where
  "checklist_values_unset = Component class_Checklist (Some ''a'') None []"

text \<open>
  A layout over two namespaces: the root and Y are of namespace \<open>html\<close>, X and Z of
  namespace \<open>core\<close>. The root, X and Y declare a \<open>_js_dist\<close> list of one dict each, the
  three dicts being different objects; Z declares none.
\<close>

definition dist_class :: "string \<Rightarrow> string \<Rightarrow> (string \<times> ref list) list \<Rightarrow> component_class" where
  "dist_class name ns dists =
     ComponentClass name ns [''children'', ''id''] [''data-'', ''aria-''] [] dists
       component_attributes"

definition node_X :: component where
  "node_X = Component (dist_class ''X'' ''core'' [(''_js_dist'', [1])]) (Some ''x'') (Some PyNone) []"

definition node_Y :: component where
  "node_Y = Component (dist_class ''Y'' ''html'' [(''_js_dist'', [2])]) None (Some PyNone) []"

definition node_Z :: component where
  "node_Z = Component (dist_class ''Z'' ''core'' []) None (Some PyNone) []"

definition layout_root :: component where
  "layout_root =
     Component (dist_class ''Div'' ''html'' [(''_js_dist'', [0])])
       None (Some (PyList [PyNode node_X, PyStr ''text'', PyNode node_Y, PyNode node_Z])) []"

definition layout_store :: store where
  "layout_store =
     (\<lambda>r. [])(0 := [(''relative_package_path'', ''html.js'')],
              1 := [(''relative_package_path'', ''core.js'')],
              2 := [(''relative_package_path'', ''other.js'')])"

text \<open>
  A layout in which two namespaces hold the same declared list: the class Div of
  namespace \<open>html\<close> declares \<open>_js_dist\<close>, and its subclass Sub sets its \<open>_namespace\<close> to
  \<open>core\<close> and inherits \<open>_js_dist\<close>, the same list of the same dict object. The root is a
  Div whose \<open>children\<close> is a Sub.
\<close>

definition node_Sub :: component where
  "node_Sub = Component (dist_class ''Sub'' ''core'' [(''_js_dist'', [0])]) None (Some PyNone) []"

definition shared_layout :: component where
  "shared_layout =
     Component (dist_class ''Div'' ''html'' [(''_js_dist'', [0])]) None (Some (PyNode node_Sub)) []"

definition shared_store :: store where
  "shared_store = (\<lambda>r. [])(0 := [(''relative_package_path'', ''bundle.js'')])"

text \<open>Two loaded component packages with a \<open>_js_dist\<close> list each, and the registry before
  any component class has been created.\<close>

definition example_modules :: sys_modules where
  "example_modules =
     [(''core'', [(''_js_dist'', [[(''relative_package_path'', ''core.js'')]])]),
      (''html'', [(''_js_dist'', [[(''relative_package_path'', ''html.js'')]])])]"

definition empty_registry :: registry_state where
  "empty_registry = \<lparr>registry = [], dist_cache = []\<rparr>"

section \<open>Structure of the recursion\<close>

lemma size_member_less: "x \<in> set xs \<Longrightarrow> size x < Suc (size_list size xs)"
  by (induction xs) auto

text \<open>Induction over the tree: a property of a component follows from the property of
  every component directly below it.\<close>

lemma component_induct [case_names Component]:
  assumes step: "\<And>c. (\<And>ch. c_children c = Some (PyNode ch) \<Longrightarrow> P ch)
             \<Longrightarrow> (\<And>xs n. c_children c = Some (PyList xs) \<Longrightarrow> PyNode n \<in> set xs \<Longrightarrow> P n)
             \<Longrightarrow> (\<And>xs n. c_children c = Some (PyTuple xs) \<Longrightarrow> PyNode n \<in> set xs \<Longrightarrow> P n)
             \<Longrightarrow> P c"
  shows "P c"
proof (induction c rule: measure_induct_rule [of size])
  case (less c)
  show ?case
  proof (rule step)
    fix ch assume "c_children c = Some (PyNode ch)"
    then have "size ch < size c" by (cases c) simp
    then show "P ch" by (rule less)
  next
    fix xs n assume "c_children c = Some (PyList xs)" and mem: "PyNode n \<in> set xs"
    then have "size n < size c" using size_member_less [OF mem] by (cases c) simp
    then show "P n" by (rule less)
  next
    fix xs n assume "c_children c = Some (PyTuple xs)" and mem: "PyNode n \<in> set xs"
    then have "size n < size c" using size_member_less [OF mem] by (cases c) simp
    then show "P n" by (rule less)
  qed
qed

text \<open>The shapes of \<open>children\<close> as the structure check sees them.\<close>

lemma children_cases [case_names not_indexable node list tuple]:
  obtains "check_if_has_indexable_children c = Inl (KeyError None)"
  | ch where "c_children c = Some (PyNode ch)"
  | xs where "c_children c = Some (PyList xs)"
  | xs where "c_children c = Some (PyTuple xs)"
proof (cases "c_children c")
  case None
  then show ?thesis using that(1) by (simp add: check_if_has_indexable_children_def)
next
  case (Some v)
  then show ?thesis using that
    by (cases v) (simp_all add: check_if_has_indexable_children_def)
qed

lemma check_indexable_iff:
  "check_if_has_indexable_children c = Inr () \<longleftrightarrow>
     (\<exists>v. c_children c = Some v \<and> (is_Component v \<or> is_sequence v))"
  by (auto simp: check_if_has_indexable_children_def split: option.splits)

lemma check_not_indexable_iff:
  "check_if_has_indexable_children c = Inl e \<longleftrightarrow>
     e = KeyError None \<and> \<not> (\<exists>v. c_children c = Some v \<and> (is_Component v \<or> is_sequence v))"
  by (auto simp: check_if_has_indexable_children_def split: option.splits)

lemma set_children_same: "c_children c = Some v \<Longrightarrow> set_children c v = c"
  by (cases c) (simp add: set_children_def)

lemma c_children_set_children [simp]: "c_children (set_children c v) = Some v"
  by (simp add: set_children_def)

section \<open>The cases of \<open>_get_set_or_delete\<close>\<close>

lemma gsd_not_indexable:
  "check_if_has_indexable_children c = Inl e \<Longrightarrow> get_set_or_delete c k operation = (c, Inl e)"
  by (cases c) simp

lemma gsd_node_match:
  "c_children c = Some (PyNode ch) \<Longrightarrow> c_id ch = Some k \<Longrightarrow>
   get_set_or_delete c k operation =
     (case operation of
        Get \<Rightarrow> (c, Inr (PyNode ch))
      | Set new_item \<Rightarrow> (set_children c new_item, Inr PyNone)
      | Delete \<Rightarrow> (set_children c PyNone, Inr PyNone))"
  by (cases c) (auto simp: check_if_has_indexable_children_def Let_def)

lemma gsd_node_rec:
  "c_children c = Some (PyNode ch) \<Longrightarrow> c_id ch \<noteq> Some k \<Longrightarrow>
   get_set_or_delete c k operation =
     (case get_set_or_delete ch k operation of
        (ch', Inr v) \<Rightarrow> (set_children c (PyNode ch'), Inr v)
      | (ch', Inl TypeError) \<Rightarrow> (set_children c (PyNode ch'), Inl TypeError)
      | (ch', Inl (KeyError a)) \<Rightarrow> (set_children c (PyNode ch'), Inl (KeyError (Some k))))"
  by (cases c) (auto simp: check_if_has_indexable_children_def Let_def)

lemma gsd_list:
  "c_children c = Some (PyList xs) \<Longrightarrow>
   get_set_or_delete c k operation =
     (case children_loop False [] xs k operation of
        (xs', Some r) \<Rightarrow> (set_children c (PyList xs'), r)
      | (xs', None) \<Rightarrow> (set_children c (PyList xs'), Inl (KeyError (Some k))))"
  by (cases c) (auto simp: check_if_has_indexable_children_def Let_def)

lemma gsd_tuple:
  "c_children c = Some (PyTuple xs) \<Longrightarrow>
   get_set_or_delete c k operation =
     (case children_loop True [] xs k operation of
        (xs', Some r) \<Rightarrow> (set_children c (PyTuple xs'), r)
      | (xs', None) \<Rightarrow> (set_children c (PyTuple xs'), Inl (KeyError (Some k))))"
  by (cases c) (auto simp: check_if_has_indexable_children_def Let_def)

lemma loop_match:
  "getattr_id item = Some k \<Longrightarrow>
   children_loop tup done (item # rest) k operation =
     (case operation of
        Get \<Rightarrow> (done @ item # rest, Some (Inr item))
      | Set new_item \<Rightarrow>
          if tup then (done @ item # rest, Some (Inl TypeError))
          else (done @ new_item # rest, Some (Inr PyNone))
      | Delete \<Rightarrow>
          if tup then (done @ item # rest, Some (Inl TypeError))
          else (done @ rest, Some (Inr PyNone)))"
  by (simp split: operation.splits)

lemma loop_skip:
  "\<not> is_Component item \<Longrightarrow>
   children_loop tup done (item # rest) k operation =
     children_loop tup (done @ [item]) rest k operation"
  by (cases item) simp_all

lemma loop_node:
  "c_id n \<noteq> Some k \<Longrightarrow>
   children_loop tup done (PyNode n # rest) k operation =
     (case get_set_or_delete n k operation of
        (n', Inr v) \<Rightarrow> (done @ PyNode n' # rest, Some (Inr v))
      | (n', Inl TypeError) \<Rightarrow> (done @ PyNode n' # rest, Some (Inl TypeError))
      | (n', Inl (KeyError a)) \<Rightarrow> children_loop tup (done @ [PyNode n']) rest k operation)"
  by simp

declare get_set_or_delete.simps [simp del] children_loop.simps(2) [simp del]

section \<open>A call that raises leaves the tree as it was\<close>

lemma loop_failure_unchanged:
  assumes "\<And>n. PyNode n \<in> set todo \<Longrightarrow>
             \<forall>e. snd (get_set_or_delete n k operation) = Inl e
                  \<longrightarrow> fst (get_set_or_delete n k operation) = n"
  shows "(\<forall>v. snd (children_loop tup done todo k operation) \<noteq> Some (Inr v))
     \<Longrightarrow> fst (children_loop tup done todo k operation) = done @ todo"
  using assms
proof (induction todo arbitrary: "done")
  case Nil
  then show ?case by simp
next
  case (Cons item rest)
  show ?case
  proof (cases "getattr_id item = Some k")
    case True
    with Cons.prems(1) show ?thesis
      by (simp add: loop_match split: operation.splits if_splits)
  next
    case nomatch: False
    show ?thesis
    proof (cases item)
      case (PyNode n)
      with nomatch have nk: "c_id n \<noteq> Some k" by simp
      have ih_n: "\<forall>e. snd (get_set_or_delete n k operation) = Inl e
                      \<longrightarrow> fst (get_set_or_delete n k operation) = n"
        using Cons.prems(2) [of n] PyNode by simp
      obtain n' r where g: "get_set_or_delete n k operation = (n', r)"
        by (cases "get_set_or_delete n k operation")
      show ?thesis
      proof (cases r)
        case (Inr v)
        with Cons.prems(1) g show ?thesis by (simp add: PyNode loop_node [OF nk])
      next
        case (Inl e)
        with ih_n g have same: "n' = n" by simp
        show ?thesis
        proof (cases e)
          case TypeError
          with Inl g same show ?thesis by (simp add: PyNode loop_node [OF nk])
        next
          case (KeyError a)
          have eq: "children_loop tup done (PyNode n # rest) k operation
                      = children_loop tup (done @ [PyNode n]) rest k operation"
            using KeyError Inl g same by (simp add: loop_node [OF nk])
          have "fst (children_loop tup (done @ [PyNode n]) rest k operation)
                  = (done @ [PyNode n]) @ rest"
            using Cons.prems eq PyNode by (intro Cons.IH) auto
          then show ?thesis by (simp add: eq PyNode)
        qed
      qed
    qed (use Cons in \<open>auto simp: loop_skip\<close>)
  qed
qed

lemma gsd_failure_unchanged:
  "snd (get_set_or_delete c k operation) = Inl e \<Longrightarrow> fst (get_set_or_delete c k operation) = c"
proof (induction c arbitrary: e rule: component_induct)
  case (Component c)
  show ?case
  proof (cases c rule: children_cases)
    case not_indexable
    then show ?thesis by (simp add: gsd_not_indexable)
  next
    case (node ch)
    show ?thesis
    proof (cases "c_id ch = Some k")
      case True
      with node Component.prems show ?thesis
        by (simp add: gsd_node_match split: operation.splits)
    next
      case False
      obtain ch' r where g: "get_set_or_delete ch k operation = (ch', r)"
        by (cases "get_set_or_delete ch k operation")
      with Component.prems node False obtain e' where r: "r = Inl e'"
        by (cases r) (auto simp: gsd_node_rec)
      with Component.IH(1) [OF node, of e'] g have "ch' = ch" by simp
      with node False g r show ?thesis
        by (cases e') (simp_all add: gsd_node_rec set_children_same)
    qed
  next
    case (list xs)
    obtain xs' ro where l: "children_loop False [] xs k operation = (xs', ro)"
      by (cases "children_loop False [] xs k operation")
    have nr: "\<forall>v. ro \<noteq> Some (Inr v)"
      using Component.prems list l by (auto simp: gsd_list)
    have "fst (children_loop False [] xs k operation) = [] @ xs"
      using nr l Component.IH(2) [OF list]
      by (intro loop_failure_unchanged) auto
    with l have "xs' = xs" by simp
    with list l show ?thesis
      by (cases ro) (simp_all add: gsd_list set_children_same)
  next
    case (tuple xs)
    obtain xs' ro where l: "children_loop True [] xs k operation = (xs', ro)"
      by (cases "children_loop True [] xs k operation")
    have nr: "\<forall>v. ro \<noteq> Some (Inr v)"
      using Component.prems tuple l by (auto simp: gsd_tuple)
    have "fst (children_loop True [] xs k operation) = [] @ xs"
      using nr l Component.IH(3) [OF tuple]
      by (intro loop_failure_unchanged) auto
    with l have "xs' = xs" by simp
    with tuple l show ?thesis
      by (cases ro) (simp_all add: gsd_tuple set_children_same)
  qed
qed

text \<open>Unfolding the scenario and running the navigator on it.\<close>

lemmas scenario_defs =
  scenario_root_def node_A_def node_B_def node_C_def example_class_def

lemmas navigator_eval =
  getitem_def setitem_def delitem_def get_set_or_delete.simps children_loop.simps
  check_if_has_indexable_children_def set_children_def NotFound_def InvalidStructure_def

text \<open>
  C6. Whenever \<open>set(id, x)\<close> or \<open>delete(id)\<close> raises, the tree after the call is the tree
  before it: a call that fails has mutated nothing.
\<close>

theorem failing_set_or_delete_keeps_tree:
  "(snd (setitem T k x) = Inl e \<longrightarrow> fst (setitem T k x) = T) \<and>
   (snd (delitem T k) = Inl e \<longrightarrow> fst (delitem T k) = T)"
  using gsd_failure_unchanged [of T k "Set x" e] gsd_failure_unchanged [of T k Delete e]
  by (simp add: setitem_def delitem_def)

theorem failing_set_or_delete_keeps_tree_witness:
  "snd (setitem scenario_root ''zz'' (PyStr ''new'')) = Inl (NotFound ''zz'') \<and>
   fst (setitem scenario_root ''zz'' (PyStr ''new'')) = scenario_root \<and>
   snd (delitem scenario_root ''zz'') = Inl (NotFound ''zz'') \<and>
   fst (delitem scenario_root ''zz'') = scenario_root"
proof -
  have s: "snd (setitem scenario_root ''zz'' (PyStr ''new'')) = Inl (NotFound ''zz'')"
    by (simp add: scenario_defs navigator_eval)
  have d: "snd (delitem scenario_root ''zz'') = Inl (NotFound ''zz'')"
    by (simp add: scenario_defs navigator_eval)
  from s d
    failing_set_or_delete_keeps_tree [of scenario_root "''zz''" "PyStr ''new''" "NotFound ''zz''"]
  show ?thesis by simp
qed

section \<open>The length of the scenario tree\<close>

text \<open>
  C3, as stated: \<open>len(root)\<close> on the scenario tree is 5. The code counts each of A,
  "text", B and C once and nothing else, so the claim fails.
\<close>

theorem len_scenario_is_not_5: "len scenario_root \<noteq> 5"
  by (simp add: scenario_defs)

text \<open>
  C3, amended: \<open>len(root)\<close> on the scenario tree is 4, the number of values that the
  traversal yields.
\<close>

theorem len_scenario_is_4:
  "len scenario_root = 4 \<and> len scenario_root = length (traverse scenario_root)"
  by (simp add: scenario_defs traverse_def id_string_def join_lines_def)

section \<open>The traversal is the pre-order walk\<close>

lemma descendants_children:
  "descendants c =
     (case c_children c of
        Some (PyNode ch) \<Rightarrow> PyNode ch # descendants ch
      | Some (PyList xs) \<Rightarrow> descendants_seq xs
      | Some (PyTuple xs) \<Rightarrow> descendants_seq xs
      | v \<Rightarrow> [])"
  by (cases c) simp

lemma descendants_not_indexable:
  "check_if_has_indexable_children c = Inl e \<Longrightarrow> descendants c = []"
  by (cases c) (auto simp: check_if_has_indexable_children_def split: option.splits pyval.splits if_splits)

lemma descendants_seq_append:
  "descendants_seq (xs @ ys) = descendants_seq xs @ descendants_seq ys"
  by (induction xs) auto

lemma traverse_node:
  "c_children c = Some (PyNode ch) \<Longrightarrow> traverse c = PyNode ch # traverse ch"
  by (cases c) (auto simp: traverse_def Let_def split: prod.splits)

lemma traverse_list:
  "c_children c = Some (PyList xs) \<Longrightarrow> traverse c = map snd (enumerate_with_paths 0 xs)"
  by (cases c) (simp add: traverse_def)

lemma traverse_tuple:
  "c_children c = Some (PyTuple xs) \<Longrightarrow> traverse c = map snd (enumerate_with_paths 0 xs)"
  by (cases c) (simp add: traverse_def)

lemma traverse_not_indexable:
  "check_if_has_indexable_children c = Inl e \<Longrightarrow> traverse c = []"
proof (cases c)
  case (Component cls i children attrs)
  assume "check_if_has_indexable_children c = Inl e"
  with Component show ?thesis
    by (cases children; cases "the children")
       (simp_all add: traverse_def check_if_has_indexable_children_def)
qed


lemma enumerate_descendants:
  assumes "\<And>n. PyNode n \<in> set xs \<Longrightarrow> traverse n = descendants n"
  shows "map snd (enumerate_with_paths idx xs) = descendants_seq xs"
  using assms
proof (induction xs arbitrary: idx)
  case Nil
  then show ?case by simp
next
  case (Cons x xs)
  have tail: "map snd (enumerate_with_paths (Suc idx) xs) = descendants_seq xs"
    using Cons.prems by (intro Cons.IH) simp
  show ?case
  proof (cases x)
    case (PyNode n)
    then have "traverse n = descendants n" using Cons.prems by simp
    then have sub: "map snd (traverse_with_paths n) = descendants n" by (simp add: traverse_def)
    have "map snd (map (\<lambda>(p, t). (f p, t)) (traverse_with_paths n)) = descendants n" for f
      unfolding sub [symmetric] by (auto split: prod.splits)
    with tail PyNode show ?thesis
      by (simp add: Let_def del: map_map)
  qed (simp_all add: tail Let_def)
qed

lemma traverse_descendants: "traverse c = descendants c"
proof (induction c rule: component_induct)
  case (Component c)
  show ?case
  proof (cases c rule: children_cases)
    case not_indexable
    then show ?thesis
      by (simp add: traverse_not_indexable descendants_not_indexable)
  next
    case (node ch)
    with Component.IH(1) [OF node] show ?thesis
      by (simp add: traverse_node descendants_children)
  next
    case (list xs)
    with enumerate_descendants [of xs 0] Component.IH(2) [OF list] show ?thesis
      by (simp add: traverse_list descendants_children)
  next
    case (tuple xs)
    with enumerate_descendants [of xs 0] Component.IH(3) [OF tuple] show ?thesis
      by (simp add: traverse_tuple descendants_children)
  qed
qed

section \<open>Lookup finds the first match in pre-order\<close>

lemma find_with_id_append:
  "find P (xs @ ys) = (case find P xs of None \<Rightarrow> find P ys | Some x \<Rightarrow> Some x)"
  by (induction xs) auto

lemma lookup_error_KeyError: "\<exists>a. lookup_error c k = KeyError a"
  by (cases c rule: children_cases) (simp_all add: lookup_error_def check_if_has_indexable_children_def)

lemma lookup_error_indexable:
  "c_children c = Some v \<Longrightarrow> is_Component v \<or> is_sequence v \<Longrightarrow>
   lookup_error c k = KeyError (Some k)"
  by (auto simp: lookup_error_def check_if_has_indexable_children_def)

lemma lookup_error_not_indexable:
  "check_if_has_indexable_children c = Inl e \<Longrightarrow> lookup_error c k = e"
  by (simp add: lookup_error_def)

lemma loop_get:
  assumes "\<And>n. PyNode n \<in> set todo \<Longrightarrow>
             fst (get_set_or_delete n k Get) = n \<and>
             (case find (\<lambda>v. getattr_id v = Some k) (descendants n) of
                Some v \<Rightarrow> snd (get_set_or_delete n k Get) = Inr v
              | None \<Rightarrow> snd (get_set_or_delete n k Get) = Inl (lookup_error n k))"
  shows "children_loop tup done todo k Get =
           (done @ todo, map_option Inr (find (\<lambda>v. getattr_id v = Some k) (descendants_seq todo)))"
  using assms
proof (induction todo arbitrary: "done")
  case Nil
  then show ?case by simp
next
  case (Cons item rest)
  have tail: "children_loop tup (done @ [item]) rest k Get =
           ((done @ [item]) @ rest,
            map_option Inr (find (\<lambda>v. getattr_id v = Some k) (descendants_seq rest)))"
    using Cons.prems by (intro Cons.IH) simp
  show ?case
  proof (cases "getattr_id item = Some k")
    case True
    then show ?thesis by (simp add: loop_match)
  next
    case nomatch: False
    show ?thesis
    proof (cases item)
      case (PyNode n)
      with nomatch have nk: "c_id n \<noteq> Some k" by simp
      have hn: "fst (get_set_or_delete n k Get) = n"
        and rn: "case find (\<lambda>v. getattr_id v = Some k) (descendants n) of
                Some v \<Rightarrow> snd (get_set_or_delete n k Get) = Inr v
              | None \<Rightarrow> snd (get_set_or_delete n k Get) = Inl (lookup_error n k)"
        using Cons.prems [of n] PyNode by simp_all
      show ?thesis
      proof (cases "find (\<lambda>v. getattr_id v = Some k) (descendants n)")
        case None
        with rn lookup_error_KeyError [of n k]
        obtain a where "snd (get_set_or_delete n k Get) = Inl (KeyError a)" by auto
        with hn have "get_set_or_delete n k Get = (n, Inl (KeyError a))"
          by (cases "get_set_or_delete n k Get") simp
        with None tail nomatch PyNode show ?thesis
          by (simp add: loop_node [OF nk] find_with_id_append)
      next
        case (Some v)
        with rn have "snd (get_set_or_delete n k Get) = Inr v" by simp
        with hn have "get_set_or_delete n k Get = (n, Inr v)"
          by (cases "get_set_or_delete n k Get") simp
        with Some nomatch PyNode show ?thesis
          by (simp add: loop_node [OF nk] find_with_id_append)
      qed
    qed (use tail nomatch in \<open>simp_all add: loop_skip\<close>)
  qed
qed

lemma gsd_get:
  "fst (get_set_or_delete c k Get) = c \<and>
   (case find (\<lambda>v. getattr_id v = Some k) (descendants c) of
      Some v \<Rightarrow> snd (get_set_or_delete c k Get) = Inr v
    | None \<Rightarrow> snd (get_set_or_delete c k Get) = Inl (lookup_error c k))"
proof (induction c rule: component_induct)
  case (Component c)
  show ?case
  proof (cases c rule: children_cases)
    case not_indexable
    then show ?thesis
      by (simp add: gsd_not_indexable descendants_not_indexable lookup_error_not_indexable)
  next
    case (node ch)
    have le: "lookup_error c k = KeyError (Some k)"
      using node by (simp add: lookup_error_indexable)
    show ?thesis
    proof (cases "c_id ch = Some k")
      case True
      with node show ?thesis by (simp add: gsd_node_match descendants_children)
    next
      case False
      obtain ch' r where g: "get_set_or_delete ch k Get = (ch', r)"
        by (cases "get_set_or_delete ch k Get")
      with Component.IH(1) [OF node] have same: "ch' = ch" by simp
      show ?thesis
      proof (cases "find (\<lambda>v. getattr_id v = Some k) (descendants ch)")
        case None
        with Component.IH(1) [OF node] g lookup_error_KeyError [of ch k]
        obtain a where "r = Inl (KeyError a)" by auto
        with None node False g same le show ?thesis
          by (simp add: gsd_node_rec descendants_children set_children_same)
      next
        case (Some v)
        with Component.IH(1) [OF node] g have "r = Inr v" by simp
        with Some node False g same show ?thesis
          by (simp add: gsd_node_rec descendants_children set_children_same)
      qed
    qed
  next
    case (list xs)
    have "children_loop False [] xs k Get =
           ([] @ xs, map_option Inr (find (\<lambda>v. getattr_id v = Some k) (descendants_seq xs)))"
      using Component.IH(2) [OF list] by (intro loop_get) simp
    with list show ?thesis
      by (cases "find (\<lambda>v. getattr_id v = Some k) (descendants_seq xs)")
         (simp_all add: gsd_list descendants_children set_children_same lookup_error_indexable)
  next
    case (tuple xs)
    have "children_loop True [] xs k Get =
           ([] @ xs, map_option Inr (find (\<lambda>v. getattr_id v = Some k) (descendants_seq xs)))"
      using Component.IH(3) [OF tuple] by (intro loop_get) simp
    with tuple show ?thesis
      by (cases "find (\<lambda>v. getattr_id v = Some k) (descendants_seq xs)")
         (simp_all add: gsd_tuple descendants_children set_children_same lookup_error_indexable)
  qed
qed

lemma getitem_found:
  "find (\<lambda>v. getattr_id v = Some k) (descendants c) = Some v \<Longrightarrow> getitem c k = (c, Inr v)"
  using gsd_get [of c k] by (cases "get_set_or_delete c k Get") (simp add: getitem_def)

lemma getitem_not_found:
  "find (\<lambda>v. getattr_id v = Some k) (descendants c) = None \<Longrightarrow>
   getitem c k = (c, Inl (lookup_error c k))"
  using gsd_get [of c k] by (cases "get_set_or_delete c k Get") (auto simp: getitem_def)

lemma find_unique:
  "filter P xs = [x] \<Longrightarrow> find P xs = Some x"
  by (induction xs) (auto split: if_splits simp: filter_empty_conv find_None_iff)

lemma with_id_is_node: "v \<in> set (with_id k vs) \<Longrightarrow> \<exists>n. v = PyNode n \<and> c_id n = Some k"
  by (cases v) (auto simp: with_id_def)
text \<open>
  C1. If exactly one value below \<open>T\<close> carries the identifier \<open>k\<close>, then \<open>get(k)\<close>
  returns that node and leaves the tree as it is; the node is the first match of the
  depth-first, parents-first, left-to-right walk through \<open>children\<close>, which does not
  include \<open>T\<close> itself.
\<close>

theorem get_returns_unique_node:
  assumes "length (with_id k (descendants T)) = 1"
  shows "\<exists>n. getitem T k = (T, Inr (PyNode n)) \<and> c_id n = Some k \<and>
             with_id k (descendants T) = [PyNode n] \<and>
             find (\<lambda>v. getattr_id v = Some k) (descendants T) = Some (PyNode n)"
proof -
  from assms obtain v where one: "with_id k (descendants T) = [v]"
    by (cases "with_id k (descendants T)") auto
  then have "v \<in> set (with_id k (descendants T))" by simp
  then obtain n where n: "v = PyNode n" "c_id n = Some k" using with_id_is_node by blast
  from one have f: "find (\<lambda>v. getattr_id v = Some k) (descendants T) = Some v"
    unfolding with_id_def by (rule find_unique)
  with getitem_found [OF f] one n show ?thesis by simp
qed

theorem get_returns_unique_node_witness:
  "length (with_id ''c'' (descendants scenario_root)) = 1 \<and>
   getitem scenario_root ''c'' = (scenario_root, Inr (PyNode node_C))"
proof -
  have w: "with_id ''c'' (descendants scenario_root) = [PyNode node_C]"
    by (simp add: with_id_def scenario_defs)
  then have h: "length (with_id ''c'' (descendants scenario_root)) = 1" by simp
  from get_returns_unique_node [OF h] w h show ?thesis by auto
qed

section \<open>Enumeration of identifiers\<close>

text \<open>
  C7. \<open>list(iter(T))\<close> is the list of the identifiers of the values below \<open>T\<close> in
  depth-first pre-order, left to right, without the root: a value that is not a component
  and a component without identifier contribute nothing, and the enumeration is a plain
  list, never a failure.
\<close>

theorem iter_ids_in_preorder:
  "iter T = List.map_filter getattr_id (descendants T)"
proof -
  have "concat (map (\<lambda>t. if is_Component t \<and> getattr_id t \<noteq> None
                           then [the (getattr_id t)] else []) vs)
          = List.map_filter getattr_id vs" for vs
  proof (induction vs)
    case Nil
    then show ?case by (simp add: List.map_filter_simps)
  next
    case (Cons v vs)
    then show ?case by (cases v) (auto simp: List.map_filter_simps)
  qed
  then show ?thesis by (simp add: iter_def traverse_descendants)
qed

theorem iter_ids_in_preorder_witness:
  "iter scenario_root = [''a'', ''b'', ''c'']"
  using iter_ids_in_preorder [of scenario_root]
  by (simp add: scenario_defs List.map_filter_simps)

section \<open>Deleting removes an occurrence of the identifier\<close>

lemma gsd_keeps_id: "c_id (fst (get_set_or_delete c k operation)) = c_id c"
proof (cases c rule: children_cases)
  case not_indexable
  then show ?thesis by (simp add: gsd_not_indexable)
next
  case (node ch)
  then show ?thesis
    by (cases "c_id ch = Some k")
       (auto simp: gsd_node_match gsd_node_rec set_children_def
             split: operation.splits prod.splits sum.splits error.splits)
next
  case (list xs)
  then show ?thesis
    by (auto simp: gsd_list set_children_def split: prod.splits option.splits)
next
  case (tuple xs)
  then show ?thesis
    by (auto simp: gsd_tuple set_children_def split: prod.splits option.splits)
qed

lemma with_id_append [simp]: "with_id k (xs @ ys) = with_id k xs @ with_id k ys"
  by (simp add: with_id_def)

lemma with_id_Cons:
  "with_id k (x # xs) = (if getattr_id x = Some k then x # with_id k xs else with_id k xs)"
  by (simp add: with_id_def)

lemma descendants_set_children:
  "descendants (set_children c v) =
     (case v of PyNode ch \<Rightarrow> PyNode ch # descendants ch
        | PyList xs \<Rightarrow> descendants_seq xs
        | PyTuple xs \<Rightarrow> descendants_seq xs
        | u \<Rightarrow> [])"
  by (simp add: descendants_children split: pyval.splits)

lemma loop_delete_count:
  assumes "\<And>n n' v. PyNode n \<in> set todo \<Longrightarrow> get_set_or_delete n k Delete = (n', Inr v) \<Longrightarrow>
             length (with_id k (descendants n')) < length (with_id k (descendants n))"
  shows "children_loop tup done todo k Delete = (xs', Some (Inr v)) \<Longrightarrow>
         length (with_id k (descendants_seq xs')) < length (with_id k (descendants_seq (done @ todo)))"
  using assms
proof (induction todo arbitrary: "done")
  case Nil
  then show ?case by simp
next
  case (Cons item rest)
  show ?case
  proof (cases "getattr_id item = Some k")
    case True
    with Cons.prems(1) show ?thesis
      by (auto simp: loop_match descendants_seq_append with_id_Cons split: if_splits)
  next
    case nomatch: False
    show ?thesis
    proof (cases item)
      case (PyNode n)
      with nomatch have nk: "c_id n \<noteq> Some k" by simp
      obtain n' r where g: "get_set_or_delete n k Delete = (n', r)"
        by (cases "get_set_or_delete n k Delete")
      have id': "c_id n' = c_id n" using gsd_keeps_id [of n k Delete] g by simp
      show ?thesis
      proof (cases r)
        case (Inr w)
        with g have less: "length (with_id k (descendants n')) < length (with_id k (descendants n))"
          using Cons.prems(2) [of n n' w] PyNode by simp
        from Inr g Cons.prems(1) have "xs' = done @ PyNode n' # rest"
          by (simp add: PyNode loop_node [OF nk])
        with less nk id' show ?thesis
          by (simp add: PyNode descendants_seq_append with_id_Cons)
      next
        case (Inl e)
        with g have same: "n' = n" using gsd_failure_unchanged [of n k Delete e] by simp
        show ?thesis
        proof (cases e)
          case TypeError
          with Inl g Cons.prems(1) show ?thesis by (simp add: PyNode loop_node [OF nk])
        next
          case (KeyError a)
          have eq: "children_loop tup done (PyNode n # rest) k Delete
                      = children_loop tup (done @ [PyNode n]) rest k Delete"
            using KeyError Inl g same by (simp add: loop_node [OF nk])
          have "length (with_id k (descendants_seq xs'))
                  < length (with_id k (descendants_seq ((done @ [PyNode n]) @ rest)))"
            using Cons.prems eq PyNode by (intro Cons.IH) auto
          then show ?thesis by (simp add: PyNode)
        qed
      qed
    next
      case PyNone
      have "length (with_id k (descendants_seq xs'))
              < length (with_id k (descendants_seq ((done @ [item]) @ rest)))"
        using Cons.prems PyNone by (intro Cons.IH) (auto simp: loop_skip)
      then show ?thesis by simp
    next
      case UNDEFINED
      have "length (with_id k (descendants_seq xs'))
              < length (with_id k (descendants_seq ((done @ [item]) @ rest)))"
        using Cons.prems UNDEFINED by (intro Cons.IH) (auto simp: loop_skip)
      then show ?thesis by simp
    next
      case (PyStr s)
      have "length (with_id k (descendants_seq xs'))
              < length (with_id k (descendants_seq ((done @ [item]) @ rest)))"
        using Cons.prems PyStr by (intro Cons.IH) (auto simp: loop_skip)
      then show ?thesis by simp
    next
      case (PyNum i)
      have "length (with_id k (descendants_seq xs'))
              < length (with_id k (descendants_seq ((done @ [item]) @ rest)))"
        using Cons.prems PyNum by (intro Cons.IH) (auto simp: loop_skip)
      then show ?thesis by simp
    next
      case (PyList ys)
      have "length (with_id k (descendants_seq xs'))
              < length (with_id k (descendants_seq ((done @ [item]) @ rest)))"
        using Cons.prems PyList by (intro Cons.IH) (auto simp: loop_skip)
      then show ?thesis by simp
    next
      case (PyTuple ys)
      have "length (with_id k (descendants_seq xs'))
              < length (with_id k (descendants_seq ((done @ [item]) @ rest)))"
        using Cons.prems PyTuple by (intro Cons.IH) (auto simp: loop_skip)
      then show ?thesis by simp
    next
      case (PyObject ty name)
      have "length (with_id k (descendants_seq xs'))
              < length (with_id k (descendants_seq ((done @ [item]) @ rest)))"
        using Cons.prems PyObject by (intro Cons.IH) (auto simp: loop_skip)
      then show ?thesis by simp
    qed
  qed
qed

lemma gsd_delete_count:
  "get_set_or_delete c k Delete = (c', Inr v) \<Longrightarrow>
   length (with_id k (descendants c')) < length (with_id k (descendants c))"
proof (induction c arbitrary: c' v rule: component_induct)
  case (Component c)
  show ?case
  proof (cases c rule: children_cases)
    case not_indexable
    with Component.prems show ?thesis by (simp add: gsd_not_indexable)
  next
    case (node ch)
    show ?thesis
    proof (cases "c_id ch = Some k")
      case True
      with node Component.prems have "c' = set_children c PyNone"
        by (simp add: gsd_node_match)
      with node True show ?thesis
        by (simp add: descendants_set_children descendants_children with_id_Cons with_id_def)
    next
      case False
      obtain ch' r where g: "get_set_or_delete ch k Delete = (ch', r)"
        by (cases "get_set_or_delete ch k Delete")
      have id': "c_id ch' = c_id ch" using gsd_keeps_id [of ch k Delete] g by simp
      from Component.prems node False g obtain w where r: "r = Inr w"
        by (cases r) (auto simp: gsd_node_rec split: error.splits)
      with Component.prems node False g have c': "c' = set_children c (PyNode ch')"
        by (simp add: gsd_node_rec)
      from Component.IH(1) [OF node, of ch' w] g r
      have "length (with_id k (descendants ch')) < length (with_id k (descendants ch))" by simp
      with c' node False id' show ?thesis
        by (simp add: descendants_set_children descendants_children with_id_Cons)
    qed
  next
    case (list xs)
    obtain xs' ro where l: "children_loop False [] xs k Delete = (xs', ro)"
      by (cases "children_loop False [] xs k Delete")
    with Component.prems list have ro: "ro = Some (Inr v)" and c': "c' = set_children c (PyList xs')"
      by (cases ro; simp add: gsd_list)+
    have "length (with_id k (descendants_seq xs')) < length (with_id k (descendants_seq ([] @ xs)))"
      using l ro Component.IH(2) [OF list] by (intro loop_delete_count [of xs k False "[]" xs' v]) auto
    with c' list show ?thesis
      by (simp add: descendants_set_children descendants_children)
  next
    case (tuple xs)
    obtain xs' ro where l: "children_loop True [] xs k Delete = (xs', ro)"
      by (cases "children_loop True [] xs k Delete")
    with Component.prems tuple have ro: "ro = Some (Inr v)" and c': "c' = set_children c (PyTuple xs')"
      by (cases ro; simp add: gsd_tuple)+
    have "length (with_id k (descendants_seq xs')) < length (with_id k (descendants_seq ([] @ xs)))"
      using l ro Component.IH(3) [OF tuple] by (intro loop_delete_count [of xs k True "[]" xs' v]) auto
    with c' tuple show ?thesis
      by (simp add: descendants_set_children descendants_children)
  qed
qed

lemma find_with_id_None: "with_id k vs = [] \<Longrightarrow> find (\<lambda>v. getattr_id v = Some k) vs = None"
  by (auto simp: with_id_def filter_empty_conv find_None_iff)

lemma lookup_error_cases:
  "lookup_error c k =
     (if check_if_has_indexable_children c = Inr () then NotFound k else InvalidStructure)"
  by (cases c rule: children_cases)
     (simp_all add: lookup_error_def NotFound_def InvalidStructure_def
        check_if_has_indexable_children_def)

lemmas more_example_defs =
  dup_root_def node_A2_def single_root_def text_root_def text_node_def node_A_def node_C_def
  example_class_def

text \<open>
  C5, as stated: after a successful \<open>delete(k)\<close>, \<open>get(k)\<close> fails also when \<open>k\<close> occurred
  on more than one node. With two nodes carrying \<open>''a''\<close> in the root's list, the delete
  removes the first and the lookup then returns the second.
\<close>

theorem delete_then_get_finds_duplicate:
  "delitem dup_root ''a'' =
     (Component (example_class ''Root'') None (Some (PyList [PyNode node_A2])) [], Inr PyNone) \<and>
   snd (getitem (fst (delitem dup_root ''a'')) ''a'') = Inr (PyNode node_A2)"
  by (simp add: more_example_defs navigator_eval)

text \<open>
  C5, amended: when exactly one node below \<open>T\<close> carries \<open>k\<close>, a successful \<open>delete(k)\<close>
  leaves no node with \<open>k\<close>, and \<open>get(k)\<close> on the result raises a \<open>KeyError\<close> and changes
  nothing: \<open>KeyError(k)\<close> if \<open>children\<close> of the root is still a component or a sequence,
  the bare \<open>KeyError\<close> of the structure check otherwise (the deleted node was the root's
  single child, and \<open>children\<close> is now \<open>None\<close>).
\<close>

theorem delete_then_get_fails_when_unique:
  assumes "length (with_id k (descendants T)) = 1" and "delitem T k = (T', Inr v)"
  shows "with_id k (descendants T') = [] \<and>
         getitem T' k =
           (T', Inl (if check_if_has_indexable_children T' = Inr () then NotFound k
                     else InvalidStructure))"
proof -
  from assms(2) have "length (with_id k (descendants T')) < length (with_id k (descendants T))"
    unfolding delitem_def by (rule gsd_delete_count)
  with assms(1) have none: "with_id k (descendants T') = []" by simp
  from getitem_not_found [OF find_with_id_None [OF none]] none show ?thesis
    by (simp add: lookup_error_cases)
qed

theorem delete_then_get_fails_when_unique_witness:
  "length (with_id ''b'' (descendants scenario_root)) = 1 \<and>
   snd (delitem scenario_root ''b'') = Inr PyNone \<and>
   snd (getitem (fst (delitem scenario_root ''b'')) ''b'') = Inl (NotFound ''b'') \<and>
   length (with_id ''a'' (descendants single_root)) = 1 \<and>
   snd (delitem single_root ''a'') = Inr PyNone \<and>
   snd (getitem (fst (delitem single_root ''a'')) ''a'') = Inl InvalidStructure"
proof -
  have h1: "length (with_id ''b'' (descendants scenario_root)) = 1"
    by (simp add: with_id_def scenario_defs)
  have d1: "delitem scenario_root ''b'' =
              (Component (example_class ''Root'') None
                 (Some (PyList [PyNode node_A, PyStr ''text''])) [], Inr PyNone)"
    by (simp add: scenario_defs navigator_eval)
  have h2: "length (with_id ''a'' (descendants single_root)) = 1"
    by (simp add: with_id_def more_example_defs)
  have d2: "delitem single_root ''a'' =
              (Component (example_class ''Root'') None (Some PyNone) [], Inr PyNone)"
    by (simp add: more_example_defs navigator_eval)
  from delete_then_get_fails_when_unique [OF h1 d1]
  have g1: "snd (getitem (fst (delitem scenario_root ''b'')) ''b'') = Inl (NotFound ''b'')"
    by (simp add: d1 check_if_has_indexable_children_def)
  from delete_then_get_fails_when_unique [OF h2 d2]
  have g2: "snd (getitem (fst (delitem single_root ''a'')) ''a'') = Inl InvalidStructure"
    by (simp add: d2 check_if_has_indexable_children_def)
  from h1 d1 g1 h2 d2 g2 show ?thesis by simp
qed

section \<open>The two kinds of \<open>KeyError\<close>\<close>

lemma loop_no_KeyError:
  "snd (children_loop tup done todo k operation) \<noteq> Some (Inl (KeyError a))"
proof (induction todo arbitrary: "done")
  case Nil
  then show ?case by simp
next
  case (Cons item rest)
  show ?case
  proof (cases "getattr_id item = Some k")
    case True
    then show ?thesis by (simp add: loop_match split: operation.splits)
  next
    case nomatch: False
    show ?thesis
    proof (cases item)
      case (PyNode n)
      with nomatch have nk: "c_id n \<noteq> Some k" by simp
      obtain n' r where g: "get_set_or_delete n k operation = (n', r)"
        by (cases "get_set_or_delete n k operation")
      show ?thesis
      proof (cases r)
        case (Inr v)
        with g show ?thesis by (simp add: PyNode loop_node [OF nk])
      next
        case (Inl e)
        with g Cons.IH [of "done @ [PyNode n']"] show ?thesis
          by (cases e) (simp_all add: PyNode loop_node [OF nk])
      qed
    qed (use Cons.IH [of "done @ [item]"] in \<open>simp_all add: loop_skip\<close>)
  qed
qed

lemma gsd_indexable_no_bare_KeyError:
  assumes "check_if_has_indexable_children c = Inr ()"
  shows "snd (get_set_or_delete c k operation) \<noteq> Inl (KeyError None)"
proof (cases c rule: children_cases)
  case not_indexable
  with assms show ?thesis by simp
next
  case (node ch)
  then show ?thesis
    by (cases "c_id ch = Some k")
       (auto simp: gsd_node_match gsd_node_rec
             split: operation.splits prod.splits sum.splits error.splits)
next
  case (list xs)
  obtain xs' ro where l: "children_loop False [] xs k operation = (xs', ro)"
    by (cases "children_loop False [] xs k operation")
  with loop_no_KeyError [of False "[]" xs k operation None] list show ?thesis
    by (cases ro) (simp_all add: gsd_list)
next
  case (tuple xs)
  obtain xs' ro where l: "children_loop True [] xs k operation = (xs', ro)"
    by (cases "children_loop True [] xs k operation")
  with loop_no_KeyError [of True "[]" xs k operation None] tuple show ?thesis
    by (cases ro) (simp_all add: gsd_tuple)
qed

lemma absent_or_scalar_not_indexable:
  "absent_or_scalar (c_children c) \<Longrightarrow> check_if_has_indexable_children c = Inl (KeyError None)"
  by (cases "c_children c" rule: absent_or_scalar.cases)
     (simp_all add: check_if_has_indexable_children_def)

lemma check_cases: "check_if_has_indexable_children c = Inr () \<or>
    check_if_has_indexable_children c = Inl (KeyError None)"
  by (cases c rule: children_cases) (simp_all add: check_if_has_indexable_children_def)

text \<open>
  C2, as stated: on a node whose \<open>children\<close> is absent or a scalar, the three operations
  fail with \<open>NotFound(id)\<close>. They fail with the bare \<open>KeyError\<close> of the structure check
  instead: on A, whose \<open>children\<close> is \<open>None\<close>, and on a node whose \<open>children\<close> is a string.
\<close>

theorem absent_or_scalar_children_not_NotFound:
  "snd (getitem node_A ''zz'') = Inl InvalidStructure \<and>
   snd (getitem node_A ''zz'') \<noteq> Inl (NotFound ''zz'') \<and>
   snd (setitem text_node ''zz'' (PyStr ''x'')) = Inl InvalidStructure \<and>
   snd (delitem text_node ''zz'') \<noteq> Inl (NotFound ''zz'')"
  by (simp add: more_example_defs navigator_eval)

text \<open>
  C2, amended: on a node whose \<open>children\<close> is absent or a scalar, \<open>get\<close>, \<open>set\<close> and
  \<open>delete\<close> fail at the structure check with the bare \<open>KeyError\<close>, which carries no
  identifier, and leave the node as it is. A call raises that bare \<open>KeyError\<close> exactly
  when the structure check of the node it is called on fails, that is when \<open>children\<close> is
  neither a component nor a list or tuple.
\<close>

theorem absent_or_scalar_children_raise_bare_KeyError:
  "(absent_or_scalar (c_children c) \<longrightarrow>
      getitem c k = (c, Inl InvalidStructure) \<and>
      setitem c k x = (c, Inl InvalidStructure) \<and>
      delitem c k = (c, Inl InvalidStructure)) \<and>
   (snd (get_set_or_delete c k operation) = Inl InvalidStructure \<longleftrightarrow>
      \<not> (\<exists>v. c_children c = Some v \<and> (is_Component v \<or> is_sequence v)))"
proof (intro conjI impI)
  assume a: "absent_or_scalar (c_children c)"
  note ni = absent_or_scalar_not_indexable [OF a]
  show "getitem c k = (c, Inl InvalidStructure)"
    by (simp add: getitem_def gsd_not_indexable [OF ni] InvalidStructure_def)
  show "setitem c k x = (c, Inl InvalidStructure)"
    by (simp add: setitem_def gsd_not_indexable [OF ni] InvalidStructure_def)
  show "delitem c k = (c, Inl InvalidStructure)"
    by (simp add: delitem_def gsd_not_indexable [OF ni] InvalidStructure_def)
next
  have "snd (get_set_or_delete c k operation) = Inl InvalidStructure \<longleftrightarrow>
      check_if_has_indexable_children c \<noteq> Inr ()"
    using check_cases [of c] gsd_indexable_no_bare_KeyError [of c k operation]
    by (auto simp: InvalidStructure_def gsd_not_indexable)
  then show "snd (get_set_or_delete c k operation) = Inl InvalidStructure \<longleftrightarrow>
      \<not> (\<exists>v. c_children c = Some v \<and> (is_Component v \<or> is_sequence v))"
    by (simp only: check_indexable_iff)
qed

theorem absent_or_scalar_children_raise_bare_KeyError_witness:
  "absent_or_scalar (c_children text_node) \<and>
   getitem text_node ''zz'' = (text_node, Inl InvalidStructure) \<and>
   setitem text_node ''zz'' (PyStr ''x'') = (text_node, Inl InvalidStructure) \<and>
   delitem text_node ''zz'' = (text_node, Inl InvalidStructure) \<and>
   c_children text_node = Some (PyStr ''text'') \<and>
   snd (get_set_or_delete text_node ''zz'' Get) = Inl InvalidStructure"
proof -
  have a: "absent_or_scalar (c_children text_node)" by (simp add: text_node_def)
  have b: "c_children text_node = Some (PyStr ''text'')" by (simp add: text_node_def)
  from a b absent_or_scalar_children_raise_bare_KeyError [of text_node "''zz''" "PyStr ''x''" Get]
  show ?thesis by simp
qed

text \<open>
  C9. The failure of the structure check and the failure of the search are both
  \<open>KeyError\<close>s. When the loop over a sequence comes to a component whose identifier does
  not match and whose \<open>children\<close> is absent or a scalar, the bare \<open>KeyError\<close> raised in
  that component is swallowed and the loop goes on with the next element; and a call on a
  node that passes the structure check never ends in the bare \<open>KeyError\<close>.
\<close>

theorem structure_error_is_KeyError_and_is_swallowed:
  "is_KeyError InvalidStructure \<and> is_KeyError (NotFound k) \<and>
   (absent_or_scalar (c_children n) \<and> c_id n \<noteq> Some k \<longrightarrow>
      get_set_or_delete n k operation = (n, Inl InvalidStructure) \<and>
      children_loop tup done (PyNode n # rest) k operation =
        children_loop tup (done @ [PyNode n]) rest k operation) \<and>
   (check_if_has_indexable_children c = Inr () \<longrightarrow>
      snd (get_set_or_delete c k operation) \<noteq> Inl InvalidStructure)"
proof (intro conjI impI)
  show "is_KeyError InvalidStructure" by (simp add: InvalidStructure_def)
  show "is_KeyError (NotFound k)" by (simp add: NotFound_def)
next
  assume a: "absent_or_scalar (c_children n) \<and> c_id n \<noteq> Some k"
  then have g: "get_set_or_delete n k operation = (n, Inl (KeyError None))"
    by (simp add: gsd_not_indexable absent_or_scalar_not_indexable)
  then show "get_set_or_delete n k operation = (n, Inl InvalidStructure)"
    by (simp add: InvalidStructure_def)
  from a g show "children_loop tup done (PyNode n # rest) k operation =
        children_loop tup (done @ [PyNode n]) rest k operation"
    by (simp add: loop_node)
next
  assume "check_if_has_indexable_children c = Inr ()"
  then show "snd (get_set_or_delete c k operation) \<noteq> Inl InvalidStructure"
    unfolding InvalidStructure_def by (rule gsd_indexable_no_bare_KeyError)
qed

theorem structure_error_is_KeyError_and_is_swallowed_witness:
  "absent_or_scalar (c_children text_node) \<and> c_id text_node \<noteq> Some ''c'' \<and>
   get_set_or_delete text_node ''c'' Get = (text_node, Inl InvalidStructure) \<and>
   children_loop False [] [PyNode text_node, PyNode node_C] ''c'' Get =
     children_loop False [PyNode text_node] [PyNode node_C] ''c'' Get \<and>
   check_if_has_indexable_children text_root = Inr () \<and>
   getitem text_root ''c'' = (text_root, Inr (PyNode node_C)) \<and>
   getitem text_root ''zz'' = (text_root, Inl (NotFound ''zz''))"
proof -
  have a: "absent_or_scalar (c_children text_node) \<and> c_id text_node \<noteq> Some ''c''"
    by (simp add: text_node_def)
  have b: "check_if_has_indexable_children text_root = Inr ()"
    by (simp add: text_root_def check_if_has_indexable_children_def)
  have c: "getitem text_root ''c'' = (text_root, Inr (PyNode node_C))"
    by (simp add: more_example_defs navigator_eval)
  have d: "getitem text_root ''zz'' = (text_root, Inl (NotFound ''zz''))"
    by (simp add: more_example_defs navigator_eval)
  from a b c d
    structure_error_is_KeyError_and_is_swallowed
      [of "''c''" text_node Get False "[]" "[PyNode node_C]" text_root]
  show ?thesis by simp
qed

section \<open>The cache of \<open>ComponentRegistry.get_resources\<close>\<close>

lemma get_resources_cached:
  "map_of (dist_cache cls) name = Some rs \<Longrightarrow> rs \<noteq> [] \<Longrightarrow>
   get_resources modules cls name = (cls, Inr rs)"
  by (simp add: get_resources_def)

lemma get_resources_recomputed:
  "map_of (dist_cache cls) name = None \<or> map_of (dist_cache cls) name = Some [] \<Longrightarrow>
   snd (get_resources modules cls name) =
     (case extend_resources modules name (registry cls) [] of
        (rs, None) \<Rightarrow> Inr rs
      | (rs, Some e) \<Rightarrow> Inl e)"
  by (auto simp: get_resources_def split: prod.splits option.splits)

lemma get_resources_result_cached:
  "get_resources modules cls name = (cls', Inr rs) \<Longrightarrow> map_of (dist_cache cls') name = Some rs"
  by (auto simp: get_resources_def Let_def update_conv' split: if_splits prod.splits option.splits)

lemma get_resources_other_name:
  "other \<noteq> name \<Longrightarrow>
   map_of (dist_cache (fst (get_resources modules cls other))) name = map_of (dist_cache cls) name"
  by (auto simp: get_resources_def Let_def update_conv' split: prod.splits option.splits)

lemma component_meta_new_cache [simp]:
  "dist_cache (component_meta_new cname module cls) = dist_cache cls"
  by (simp add: component_meta_new_def Let_def)

text \<open>
  C10. Once \<open>get_resources\<close> has returned a non-empty list for a name, every later call
  for that name returns the same list and changes nothing, whatever the registry and
  the loaded modules have become, as long as the cache entry of the name is the one that
  call left; registering a class leaves the cache alone, and a call for another name
  leaves the entry alone. After a call that returned the empty list, the next call for
  the name computes its result afresh from the registry of that moment.
\<close>

theorem get_resources_caches_nonempty_only:
  "(get_resources modules cls name = (cls', Inr rs) \<and> rs \<noteq> [] \<and>
      map_of (dist_cache later) name = map_of (dist_cache cls') name
      \<longrightarrow> get_resources modules' later name = (later, Inr rs)) \<and>
   (get_resources modules cls name = (cls', Inr []) \<and>
      map_of (dist_cache later) name = map_of (dist_cache cls') name
      \<longrightarrow> snd (get_resources modules' later name) =
            (case extend_resources modules' name (registry later) [] of
               (rs', None) \<Rightarrow> Inr rs'
             | (rs', Some e) \<Rightarrow> Inl e)) \<and>
   dist_cache (component_meta_new cname module cls') = dist_cache cls' \<and>
   (other \<noteq> name \<longrightarrow>
      map_of (dist_cache (fst (get_resources modules' cls' other))) name =
        map_of (dist_cache cls') name)"
proof (intro conjI impI)
  assume "other \<noteq> name"
  then show "map_of (dist_cache (fst (get_resources modules' cls' other))) name =
        map_of (dist_cache cls') name"
    by (rule get_resources_other_name)
next
  assume a: "get_resources modules cls name = (cls', Inr rs) \<and> rs \<noteq> [] \<and>
      map_of (dist_cache later) name = map_of (dist_cache cls') name"
  then have "map_of (dist_cache later) name = Some rs"
    using get_resources_result_cached [of modules cls name cls' rs] by simp
  with a show "get_resources modules' later name = (later, Inr rs)"
    by (simp add: get_resources_cached)
next
  assume a: "get_resources modules cls name = (cls', Inr []) \<and>
      map_of (dist_cache later) name = map_of (dist_cache cls') name"
  then have "map_of (dist_cache later) name = Some []"
    using get_resources_result_cached [of modules cls name cls' "[]"] by simp
  then show "snd (get_resources modules' later name) =
            (case extend_resources modules' name (registry later) [] of
               (rs', None) \<Rightarrow> Inr rs'
             | (rs', Some e) \<Rightarrow> Inl e)"
    by (simp add: get_resources_recomputed)
next
  show "dist_cache (component_meta_new cname module cls') = dist_cache cls'" by simp
qed

lemmas registry_eval =
  get_resources_def component_meta_new_def example_modules_def empty_registry_def Let_def

theorem get_resources_caches_nonempty_only_witness:
  "get_resources example_modules empty_registry ''_js_dist'' =
     (\<lparr>registry = [], dist_cache = [(''_js_dist'', [])]\<rparr>, Inr []) \<and>
   snd (get_resources example_modules
          (component_meta_new ''Graph'' ''core.Graph''
             \<lparr>registry = [], dist_cache = [(''_js_dist'', [])]\<rparr>) ''_js_dist'') =
     Inr [[(''relative_package_path'', ''core.js'')]] \<and>
   get_resources example_modules
     \<lparr>registry = [''core''], dist_cache = [(''_js_dist'', [])]\<rparr> ''_js_dist'' =
     (\<lparr>registry = [''core''],
       dist_cache = [(''_js_dist'', [[(''relative_package_path'', ''core.js'')]])]\<rparr>,
      Inr [[(''relative_package_path'', ''core.js'')]]) \<and>
   snd (get_resources example_modules
          (component_meta_new ''Div'' ''html.Div''
             \<lparr>registry = [''core''],
               dist_cache = [(''_js_dist'', [[(''relative_package_path'', ''core.js'')]])]\<rparr>)
          ''_js_dist'') =
     Inr [[(''relative_package_path'', ''core.js'')]]"
proof -
  let ?s1 = "\<lparr>registry = [], dist_cache = [(''_js_dist'', [])]\<rparr>"
  let ?s2 = "\<lparr>registry = [''core''], dist_cache = [(''_js_dist'', [])]\<rparr>"
  let ?s3 = "\<lparr>registry = [''core''],
              dist_cache = [(''_js_dist'', [[(''relative_package_path'', ''core.js'')]])]\<rparr>"
  let ?core = "[[(''relative_package_path'', ''core.js'')]]"
  have r1: "get_resources example_modules empty_registry ''_js_dist'' = (?s1, Inr [])"
    by (simp add: registry_eval)
  have m2: "component_meta_new ''Graph'' ''core.Graph'' ?s1 = ?s2"
    by (simp add: registry_eval)
  have r2: "get_resources example_modules ?s2 ''_js_dist'' = (?s3, Inr ?core)"
    by (simp add: registry_eval)
  have ne: "?core \<noteq> []" by simp
  note thm1 = get_resources_caches_nonempty_only
    [of example_modules empty_registry "''_js_dist''" ?s1 "[]"
        "component_meta_new ''Graph'' ''core.Graph'' ?s1" example_modules]
  note thm2 = get_resources_caches_nonempty_only
    [of example_modules ?s2 "''_js_dist''" ?s3 ?core
        "component_meta_new ''Div'' ''html.Div'' ?s3" example_modules]
  have a: "snd (get_resources example_modules
                 (component_meta_new ''Graph'' ''core.Graph'' ?s1) ''_js_dist'') = Inr ?core"
    using thm1 r1 by (simp add: m2) (simp add: example_modules_def)
  have b: "snd (get_resources example_modules
                 (component_meta_new ''Div'' ''html.Div'' ?s3) ''_js_dist'') = Inr ?core"
    using thm2 r2 ne by simp
  from r1 a r2 b show ?thesis by (intro conjI)
qed

section \<open>What \<open>to_plotly_json\<close> emits\<close>

lemma dict_update_keyed:
  "map_of (dict_update d (map (\<lambda>p. (p, g p)) ks)) p =
     (if p \<in> set ks then Some (g p) else map_of d p)"
  by (induction ks arbitrary: d) (auto simp: dict_update_def update_conv')

lemma dict_of_keyed:
  "map_of (dict_of (map (\<lambda>p. (p, g p)) ks)) p = (if p \<in> set ks then Some (g p) else None)"
  by (simp add: dict_of_def dict_update_keyed)

lemma dict_update_distinct:
  "distinct (map fst d) \<Longrightarrow> distinct (map fst (dict_update d e))"
  by (induction e arbitrary: d) (auto simp: dict_update_def distinct_update)

lemma dict_of_distinct: "distinct (map fst (dict_of e))"
  by (simp add: dict_of_def dict_update_distinct)

lemma dict_update_map_of:
  "distinct (map fst e) \<Longrightarrow> map_of (dict_update d e) p =
     (case map_of e p of None \<Rightarrow> map_of d p | Some v \<Rightarrow> Some v)"
proof (induction e arbitrary: d)
  case Nil
  then show ?case by (simp add: dict_update_def)
next
  case (Cons kv e)
  obtain k v where kv: "kv = (k, v)" by (cases kv)
  from Cons.prems kv have d: "distinct (map fst e)" and nk: "map_of e k = None"
    by (auto simp: map_of_eq_None_iff)
  have "map_of (dict_update (AList.update k v d) e) p =
          (case map_of e p of None \<Rightarrow> map_of (AList.update k v d) p | Some v \<Rightarrow> Some v)"
    using d by (rule Cons.IH)
  with nk kv show ?case
    by (auto simp: dict_update_def update_conv' split: option.splits)
qed

lemma to_plotly_json_props:
  "map_of (json_props (to_plotly_json c)) p =
     (if (p \<in> set (cls_prop_names (c_class c)) \<and> hasattr c p)
         \<or> (list_ex (\<lambda>w. startswith p w) (cls_valid_wildcard_attributes (c_class c))
            \<and> p \<in> fst ` set (instance_dict c))
      then Some (getattr c p) else None)"
  by (auto simp: to_plotly_json_def Let_def dict_update_map_of dict_of_distinct dict_of_keyed)

lemma getattr_stored:
  "map_of (instance_dict c) p = Some v \<Longrightarrow> hasattr c p \<and> getattr c p = v"
  by (auto simp: hasattr_def getattr_def dest: map_of_SomeD intro: rev_image_eqI)

lemma getattr_inherited:
  "map_of (instance_dict c) p = None \<Longrightarrow> map_of (class_dict c) p = Some v \<Longrightarrow>
   hasattr c p \<and> getattr c p = v"
  by (auto simp: hasattr_def getattr_def dest: map_of_SomeD intro: rev_image_eqI)

lemma hasattr_iff:
  "hasattr c p \<longleftrightarrow> map_of (instance_dict c) p \<noteq> None \<or> map_of (class_dict c) p \<noteq> None"
  by (simp add: hasattr_def map_of_eq_None_iff)

lemmas serialization_eval =
  to_plotly_json_def instance_dict_def class_dict_def hasattr_def getattr_def startswith_def
  dict_of_def dict_update_def class_A_def class_Checklist_def component_attributes_def Let_def

text \<open>
  C4, as stated: a property whose stored value is the sentinel \<open>Component.UNDEFINED\<close> is
  left out of the serialized properties. \<open>to_plotly_json\<close> does not look at values: with
  \<open>foo\<close> stored as \<open>UNDEFINED\<close> the result has \<open>foo\<close>, with that value.
\<close>

theorem undefined_valued_property_is_serialized:
  "json_props (to_plotly_json A_foo_undefined) =
     [(''id'', PyStr ''a''), (''foo'', UNDEFINED), (''bar'', PyNum 1)] \<and>
   map_of (json_props (to_plotly_json A_foo_undefined)) ''foo'' = Some UNDEFINED"
  by (simp add: A_foo_undefined_def serialization_eval)

text \<open>
  C4, amended: the result carries the node's type and namespace, and its properties are
  the declared property names for which \<open>hasattr(self, name)\<close> holds together with the
  wildcard-prefixed names of the instance dict, each with the value \<open>getattr\<close> gives,
  whatever that value is: a stored value is emitted as it is, the sentinel \<open>UNDEFINED\<close>
  included, and a declared name that is not stored is emitted with what the class
  provides under that name, if anything. For the node A that stores \<open>id = "a"\<close> and
  \<open>bar = 1\<close> and has no \<open>foo\<close> attribute, the properties are \<open>{id: "a", bar: 1}\<close>.
\<close>

theorem to_plotly_json_serializes_what_hasattr_finds:
  "map_of (json_props (to_plotly_json c)) p =
     (if (p \<in> set (cls_prop_names (c_class c)) \<and> hasattr c p)
         \<or> (list_ex (\<lambda>w. startswith p w) (cls_valid_wildcard_attributes (c_class c))
            \<and> p \<in> fst ` set (instance_dict c))
      then Some (getattr c p) else None) \<and>
   (hasattr c p \<longleftrightarrow>
      map_of (instance_dict c) p \<noteq> None \<or> map_of (class_dict c) p \<noteq> None) \<and>
   (map_of (instance_dict c) p = Some v \<longrightarrow> getattr c p = v) \<and>
   (map_of (instance_dict c) p = None \<and> map_of (class_dict c) p = Some v \<longrightarrow> getattr c p = v) \<and>
   json_type (to_plotly_json c) = cls_type (c_class c) \<and>
   json_namespace (to_plotly_json c) = cls_namespace (c_class c) \<and>
   to_plotly_json A_foo_unset =
     \<lparr>json_props = [(''id'', PyStr ''a''), (''bar'', PyNum 1)],
      json_type = ''A'', json_namespace = ''ns''\<rparr>"
proof (intro conjI impI)
  show "map_of (json_props (to_plotly_json c)) p =
     (if (p \<in> set (cls_prop_names (c_class c)) \<and> hasattr c p)
         \<or> (list_ex (\<lambda>w. startswith p w) (cls_valid_wildcard_attributes (c_class c))
            \<and> p \<in> fst ` set (instance_dict c))
      then Some (getattr c p) else None)"
    by (rule to_plotly_json_props)
  show "hasattr c p \<longleftrightarrow>
      map_of (instance_dict c) p \<noteq> None \<or> map_of (class_dict c) p \<noteq> None"
    by (rule hasattr_iff)
  show "getattr c p = v" if "map_of (instance_dict c) p = Some v"
    using getattr_stored [OF that] by simp
  show "getattr c p = v" if "map_of (instance_dict c) p = None \<and> map_of (class_dict c) p = Some v"
    using that getattr_inherited [of c p v] by simp
  show "json_type (to_plotly_json c) = cls_type (c_class c)"
    by (simp add: to_plotly_json_def Let_def)
  show "json_namespace (to_plotly_json c) = cls_namespace (c_class c)"
    by (simp add: to_plotly_json_def Let_def)
  show "to_plotly_json A_foo_unset =
     \<lparr>json_props = [(''id'', PyStr ''a''), (''bar'', PyNum 1)],
      json_type = ''A'', json_namespace = ''ns''\<rparr>"
    by (simp add: A_foo_unset_def serialization_eval)
qed

theorem to_plotly_json_serializes_what_hasattr_finds_witness:
  "map_of (instance_dict A_with_wildcard) ''data-x'' = Some (PyStr ''y'') \<and>
   map_of (json_props (to_plotly_json A_with_wildcard)) ''data-x'' = Some (PyStr ''y'') \<and>
   map_of (json_props (to_plotly_json A_with_wildcard)) ''foo'' = None \<and>
   map_of (json_props (to_plotly_json A_with_wildcard)) ''_type'' = None \<and>
   map_of (instance_dict checklist_values_unset) ''values'' = None \<and>
   map_of (class_dict checklist_values_unset) ''values'' = Some (PyObject ''method'' ''values'') \<and>
   map_of (json_props (to_plotly_json checklist_values_unset)) ''values'' =
     Some (PyObject ''method'' ''values'') \<and>
   json_type (to_plotly_json A_with_wildcard) = ''A'' \<and>
   json_namespace (to_plotly_json A_with_wildcard) = ''ns''"
proof -
  have i1: "map_of (instance_dict A_with_wildcard) ''data-x'' = Some (PyStr ''y'')"
    by (simp add: A_with_wildcard_def instance_dict_def class_A_def)
  have i2: "map_of (instance_dict checklist_values_unset) ''values'' = None"
    by (simp add: checklist_values_unset_def instance_dict_def class_Checklist_def)
  have i3: "map_of (class_dict checklist_values_unset) ''values''
              = Some (PyObject ''method'' ''values'')"
    by (simp add: checklist_values_unset_def class_dict_def class_Checklist_def
          component_attributes_def)
  have p1: "map_of (json_props (to_plotly_json A_with_wildcard)) ''data-x'' = Some (PyStr ''y'')"
    using to_plotly_json_serializes_what_hasattr_finds
            [of A_with_wildcard "''data-x''" "PyStr ''y''"] i1
    by (simp add: A_with_wildcard_def instance_dict_def class_A_def startswith_def)
  have p2: "map_of (json_props (to_plotly_json A_with_wildcard)) ''foo'' = None"
    using to_plotly_json_serializes_what_hasattr_finds [of A_with_wildcard "''foo''" PyNone]
    by (simp add: A_with_wildcard_def instance_dict_def class_dict_def class_A_def
          component_attributes_def startswith_def)
  have p3: "map_of (json_props (to_plotly_json A_with_wildcard)) ''_type'' = None"
    using to_plotly_json_serializes_what_hasattr_finds [of A_with_wildcard "''_type''" PyNone]
    by (simp add: A_with_wildcard_def instance_dict_def class_A_def startswith_def)
  have p4: "map_of (json_props (to_plotly_json checklist_values_unset)) ''values'' =
              Some (PyObject ''method'' ''values'')"
    using to_plotly_json_serializes_what_hasattr_finds
            [of checklist_values_unset "''values''" "PyObject ''method'' ''values''"] i2 i3
    by (simp add: checklist_values_unset_def class_Checklist_def)
  have t: "json_type (to_plotly_json A_with_wildcard) = ''A''"
    and n: "json_namespace (to_plotly_json A_with_wildcard) = ''ns''"
    using to_plotly_json_serializes_what_hasattr_finds [of A_with_wildcard "''foo''" PyNone]
    by (simp_all add: A_with_wildcard_def class_A_def)
  from i1 p1 p2 p3 i2 i3 p4 t n show ?thesis by (intro conjI)
qed

section \<open>Inferred resources and shared dict objects\<close>

lemma extract_non_node:
  "namespace_of t = None \<Longrightarrow> extract_resource_from_component name t st = st"
  by (cases t; cases st) (auto simp: extract_resource_from_component_def)

lemma extract_seen:
  "namespace_of t = Some m \<Longrightarrow> m \<in> set nss \<Longrightarrow>
   extract_resource_from_component name t (nss, refs, h) = (nss, refs, h)"
  by (cases t) (simp_all add: extract_resource_from_component_def)

lemma extract_new:
  "namespace_of t = Some m \<Longrightarrow> m \<notin> set nss \<Longrightarrow>
   extract_resource_from_component name t (nss, refs, h) =
     (nss @ [m], refs @ declared_refs name t,
      foldl (\<lambda>h r. h(r := AList.update ''namespace'' m (h r))) h (declared_refs name t))"
  by (cases t) (auto simp: extract_resource_from_component_def Let_def split: option.splits)

lemma tag_other:
  "r \<notin> set rs \<Longrightarrow> foldl (\<lambda>h r. h(r := AList.update k m (h r))) h rs r = h r"
  by (induction rs arbitrary: h) auto

lemma tag_member:
  "r \<in> set rs \<Longrightarrow>
   foldl (\<lambda>h r. h(r := AList.update k m (h r))) h rs r = AList.update k m (h r)"
proof (induction rs arbitrary: h)
  case Nil
  then show ?case by simp
next
  case (Cons a rs)
  show ?case
  proof (cases "r \<in> set rs")
    case True
    then show ?thesis using Cons.IH [of "h(a := AList.update k m (h a))"] by auto
  next
    case False
    with Cons.prems have ra: "r = a" by simp
    from False ra have "a \<notin> set rs" by simp
    from tag_other [OF this, of k m "h(a := AList.update k m (h a))"]
    have "foldl (\<lambda>h r. h(r := AList.update k m (h r))) (h(a := AList.update k m (h a))) rs a
            = AList.update k m (h a)"
      by (simp only: fun_upd_same)
    then show ?thesis unfolding ra foldl_Cons .
  qed
qed

lemma tagged_resources_tag:
  "d \<in> set (tagged_resources name h t) \<Longrightarrow> map_of d ''namespace'' = namespace_of t"
  by (auto simp: tagged_resources_def update_conv' split: option.splits)

lemma collect_non_node:
  "namespace_of t = None \<Longrightarrow> collect_tagged name h t st = st"
  by (cases st) (simp add: collect_tagged_def)

lemma collect_seen:
  "namespace_of t = Some m \<Longrightarrow> m \<in> set nss \<Longrightarrow>
   collect_tagged name h t (nss, vals) = (nss, vals)"
  by (simp add: collect_tagged_def)

lemma collect_new:
  "namespace_of t = Some m \<Longrightarrow> m \<notin> set nss \<Longrightarrow>
   collect_tagged name h t (nss, vals) = (nss @ [m], vals @ tagged_resources name h t)"
  by (simp add: collect_tagged_def)

lemma collected_per_namespace:
  assumes "\<forall>d \<in> set vals. \<exists>m \<in> set nss. map_of d ''namespace'' = Some m"
  shows "filter (\<lambda>d. map_of d ''namespace'' = Some ns)
           (snd (foldl (\<lambda>st t. collect_tagged name h t st) (nss, vals) ts))
         = filter (\<lambda>d. map_of d ''namespace'' = Some ns) vals
           @ (if ns \<in> set nss then []
              else (case find (\<lambda>t. namespace_of t = Some ns) ts of
                      None \<Rightarrow> [] | Some t \<Rightarrow> tagged_resources name h t))"
  using assms
proof (induction ts arbitrary: nss vals)
  case Nil
  then show ?case by (auto simp: filter_empty_conv)
next
  case (Cons t ts)
  show ?case
  proof (cases "namespace_of t")
    case None
    with Cons.IH [OF Cons.prems] show ?thesis by (simp add: collect_non_node)
  next
    case (Some m)
    show ?thesis
    proof (cases "m \<in> set nss")
      case True
      with Some Cons.IH [OF Cons.prems] show ?thesis by (auto simp: collect_seen)
    next
      case False
      have inv: "\<forall>d \<in> set (vals @ tagged_resources name h t).
                   \<exists>m' \<in> set (nss @ [m]). map_of d ''namespace'' = Some m'"
        using Cons.prems Some by (auto dest: tagged_resources_tag)
      have own: "filter (\<lambda>d. map_of d ''namespace'' = Some ns) (tagged_resources name h t)
                   = (if ns = m then tagged_resources name h t else [])"
        using Some by (auto simp: filter_empty_conv filter_id_conv dest: tagged_resources_tag)
      have old: "ns \<notin> set nss \<Longrightarrow> filter (\<lambda>d. map_of d ''namespace'' = Some ns) vals = []"
        using Cons.prems by (auto simp: filter_empty_conv)
      from Cons.IH [OF inv] Some False own old show ?thesis
        by (auto simp: collect_new)
    qed
  qed
qed

lemma collected_tagged:
  assumes "\<forall>d \<in> set vals. \<exists>m. map_of d ''namespace'' = Some m"
  shows "\<forall>d \<in> set (snd (foldl (\<lambda>st t. collect_tagged name h t st) (nss, vals) ts)).
           \<exists>m. map_of d ''namespace'' = Some m"
  using assms
proof (induction ts arbitrary: nss vals)
  case Nil
  then show ?case by simp
next
  case (Cons t ts)
  show ?case
  proof (cases "namespace_of t")
    case None
    with Cons.IH [OF Cons.prems] show ?thesis by (simp add: collect_non_node)
  next
    case (Some m)
    show ?thesis
    proof (cases "m \<in> set nss")
      case True
      with Some Cons.IH [OF Cons.prems] show ?thesis by (simp add: collect_seen)
    next
      case False
      have "\<forall>d \<in> set (vals @ tagged_resources name h t). \<exists>m. map_of d ''namespace'' = Some m"
        using Cons.prems Some by (auto dest: tagged_resources_tag)
      from Cons.IH [OF this] Some False show ?thesis by (simp add: collect_new)
    qed
  qed
qed

lemma no_shared_dictsD:
  "no_shared_dicts name ts \<Longrightarrow> t1 \<in> set ts \<Longrightarrow> t2 \<in> set ts \<Longrightarrow>
   namespace_of t1 \<noteq> namespace_of t2 \<Longrightarrow> r \<in> set (declared_refs name t1) \<Longrightarrow>
   r \<notin> set (declared_refs name t2)"
  by (auto simp: no_shared_dicts_def list_all_iff)

text \<open>Without a dict shared between namespaces, the references collected and the store
  read as the collection on values.\<close>

lemma extract_refines_collect:
  assumes ns: "no_shared_dicts name W"
    and sub: "set ts \<subseteq> set W"
    and vals: "map h refs = vals"
    and fresh: "\<forall>r. r \<notin> set refs \<longrightarrow> h r = h0 r"
    and owned: "\<forall>r \<in> set refs. \<exists>t \<in> set W. \<exists>m \<in> set nss.
                   namespace_of t = Some m \<and> r \<in> set (declared_refs name t)"
  shows "returned_dicts (snd (foldl (\<lambda>st t. extract_resource_from_component name t st)
                               (nss, refs, h) ts))
         = snd (foldl (\<lambda>st t. collect_tagged name h0 t st) (nss, vals) ts)"
  using sub vals fresh owned
proof (induction ts arbitrary: nss refs h vals)
  case Nil
  then show ?case by (simp add: returned_dicts_def)
next
  case (Cons t ts)
  from Cons.prems(1) have tW: "t \<in> set W" and sub': "set ts \<subseteq> set W" by auto
  show ?case
  proof (cases "namespace_of t")
    case None
    with Cons.IH [OF sub' Cons.prems(2-4)] show ?thesis
      by (simp add: extract_non_node collect_non_node)
  next
    case (Some m)
    show ?thesis
    proof (cases "m \<in> set nss")
      case True
      with Some Cons.IH [OF sub' Cons.prems(2-4)] show ?thesis
        by (simp add: extract_seen collect_seen)
    next
      case False
      let ?rs = "declared_refs name t"
      let ?h = "foldl (\<lambda>h r. h(r := AList.update ''namespace'' m (h r))) h ?rs"
      have disj: "r \<notin> set ?rs" if "r \<in> set refs" for r
      proof -
        from Cons.prems(4) that obtain t' m' where t': "t' \<in> set W" "m' \<in> set nss"
            "namespace_of t' = Some m'" "r \<in> set (declared_refs name t')"
          by blast
        with False Some have "namespace_of t' \<noteq> namespace_of t" by auto
        from no_shared_dictsD [OF ns t'(1) tW this t'(4)] show ?thesis .
      qed
      have old: "map ?h refs = vals"
        using Cons.prems(2) disj by (auto simp: tag_other)
      have new: "map ?h ?rs = tagged_resources name h0 t"
      proof -
        have "?h r = AList.update ''namespace'' m (h0 r)" if "r \<in> set ?rs" for r
        proof -
          from that disj have "r \<notin> set refs" by blast
          with Cons.prems(3) have "h r = h0 r" by simp
          with that show ?thesis by (simp add: tag_member)
        qed
        then show ?thesis using Some by (simp add: tagged_resources_def)
      qed
      have v': "map ?h (refs @ ?rs) = vals @ tagged_resources name h0 t"
        using old new by simp
      have f': "\<forall>r. r \<notin> set (refs @ ?rs) \<longrightarrow> ?h r = h0 r"
        using Cons.prems(3) by (auto simp: tag_other)
      have o': "\<forall>r \<in> set (refs @ ?rs). \<exists>t \<in> set W. \<exists>m' \<in> set (nss @ [m]).
                   namespace_of t = Some m' \<and> r \<in> set (declared_refs name t)"
        using Cons.prems(4) tW Some by (auto; blast)
      from Cons.IH [OF sub' v' f' o'] Some False show ?thesis
        by (simp add: extract_new collect_new)
    qed
  qed
qed

lemma get_inferred_resources_fold:
  "get_inferred_resources name layout h =
     snd (foldl (\<lambda>st t. extract_resource_from_component name t st) ([], [], h)
            (PyNode layout # descendants layout))"
  by (simp add: get_inferred_resources_def traverse_descendants)

text \<open>
  Where no dict object is declared under two namespaces, the code does what the
  specification says: every returned entry carries a \<open>namespace\<close> tag, and for each
  namespace the entries tagged with it are the declared list of the first node of that
  namespace in the walk over the root and its traversal, each entry tagged with the
  namespace.
\<close>

lemma inferred_resources_without_sharing:
  assumes "no_shared_dicts name (PyNode layout # descendants layout)"
  shows "(\<forall>d \<in> set (returned_dicts (get_inferred_resources name layout h)).
            \<exists>m. map_of d ''namespace'' = Some m) \<and>
         filter (\<lambda>d. map_of d ''namespace'' = Some ns)
           (returned_dicts (get_inferred_resources name layout h)) =
           (case find (\<lambda>t. namespace_of t = Some ns) (PyNode layout # descendants layout) of
              None \<Rightarrow> []
            | Some t \<Rightarrow> tagged_resources name h t)"
proof -
  let ?W = "PyNode layout # descendants layout"
  have eq: "returned_dicts (get_inferred_resources name layout h)
              = snd (foldl (\<lambda>st t. collect_tagged name h t st) ([], []) ?W)"
    unfolding get_inferred_resources_fold
    using assms by (intro extract_refines_collect [where W = ?W]) simp_all
  show ?thesis
    unfolding eq
    using collected_tagged [of "[]" name h "[]" ?W]
          collected_per_namespace [of "[]" "[]" ns name h ?W]
    by simp
qed

lemmas layout_defs =
  layout_root_def node_X_def node_Y_def node_Z_def shared_layout_def node_Sub_def dist_class_def

text \<open>
  C8. The claim: the entries collected for a namespace are the declared list of the first
  node of that namespace, each tagged with that namespace. In the layout where the root,
  of namespace \<open>html\<close>, and its child, of namespace \<open>core\<close>, declare the same dict
  object, the code returns that dict twice, and both entries read \<open>namespace = core\<close>:
  tagging for \<open>core\<close> has overwritten the tag of the entry collected for \<open>html\<close>, and no
  entry is tagged \<open>html\<close>, while the list of the first node of \<open>html\<close>, tagged, is one
  entry with \<open>namespace = html\<close>.
\<close>

theorem inferred_resources_shared_dict_is_retagged:
  "fst (get_inferred_resources ''_js_dist'' shared_layout shared_store) = [0, 0] \<and>
   returned_dicts (get_inferred_resources ''_js_dist'' shared_layout shared_store) =
     [[(''relative_package_path'', ''bundle.js''), (''namespace'', ''core'')],
      [(''relative_package_path'', ''bundle.js''), (''namespace'', ''core'')]] \<and>
   filter (\<lambda>d. map_of d ''namespace'' = Some ''html'')
     (returned_dicts (get_inferred_resources ''_js_dist'' shared_layout shared_store)) = [] \<and>
   find (\<lambda>t. namespace_of t = Some ''html'') (PyNode shared_layout # traverse shared_layout) =
     Some (PyNode shared_layout) \<and>
   tagged_resources ''_js_dist'' shared_store (PyNode shared_layout) =
     [[(''relative_package_path'', ''bundle.js''), (''namespace'', ''html'')]]"
  by (simp add: get_inferred_resources_fold traverse_descendants returned_dicts_def
        extract_resource_from_component_def tagged_resources_def shared_store_def layout_defs)

end
